theory Spec2Isabelle
  imports Complex_Main "HOL-Library.Word"
begin

unbundle bit_operations_syntax

section \<open>Interpolation weights (16tile/scripts)\<close>

text \<open>
  The scripts compute on Python integers, which do not overflow: they are \<open>int\<close> here.
  Python's \<open>x >> n\<close> on an integer is the arithmetic shift, \<open>drop_bit n x\<close>, which
  rounds towards minus infinity, and \<open>x & 0xFF\<close> is \<open>x AND 255\<close>.
\<close>

definition TILE_WIDTH :: int where "TILE_WIDTH = 320"
definition TILE_HEIGHT :: int where "TILE_HEIGHT = 180"
definition TILE_CENTER_X :: int where "TILE_CENTER_X = 160"
definition TILE_CENTER_Y :: int where "TILE_CENTER_Y = 90"

text \<open>
  \<open>calc_weight_fixed\<close> of \<open>verify_fixed_weights.py\<close>: the weight of a signed offset
  from the tile centre. The source first shifts the product, then overwrites the offset
  with \<open>-((-mult) >> 10)\<close> when the product is negative, and saturates into 0..255.
\<close>

definition calc_weight_fixed :: "int \<Rightarrow> bool \<Rightarrow> int" where
  "calc_weight_fixed dx_or_dy is_x_axis =
     (let result =
        (if is_x_axis then
           (let mult = dx_or_dy * 819;
                offset = drop_bit 10 mult;
                offset = (if mult < 0 then - (drop_bit 10 (- mult)) else offset)
            in 128 + offset)
         else
           (let mult = dx_or_dy * 1456;
                offset = drop_bit 10 mult;
                offset = (if mult < 0 then - (drop_bit 10 (- mult)) else offset)
            in 128 + offset))
      in if result < 0 then 0 else if result > 255 then 255 else result)"

text \<open>
  \<open>calc_current_weight\<close> of \<open>analyze_remaining_artifacts.py\<close>: the same formula for
  the x axis, saturating with \<open>max(0, min(255, result))\<close>.
\<close>

definition calc_current_weight :: "int \<Rightarrow> int" where
  "calc_current_weight dx =
     (let mult = dx * 819;
          offset = drop_bit 10 mult;
          offset = (if mult < 0 then - (drop_bit 10 (- mult)) else offset);
          result = 128 + offset
      in max 0 (min 255 result))"

text \<open>
  \<open>calc_weight_verilog\<close> of \<open>debug_interp_weights.py\<close>: the weight taken from the
  unsigned local coordinate, kept to eight bits.
\<close>

definition calc_weight_verilog :: "int \<Rightarrow> bool \<Rightarrow> int" where
  "calc_weight_verilog local_coord is_x_axis =
     (if is_x_axis then
        (let mult = local_coord * 819; wx = (drop_bit 10 mult) AND 255 in wx)
      else
        (let mult = local_coord * 1456; wy = (drop_bit 10 mult) AND 255 in wy))"

text \<open>
  The body of the loop of \<open>test_bilinear_interp\<close>: two horizontal blends of the four
  tile values and one vertical blend of their results, each shifted right by 8.
\<close>

definition bilinear_interp :: "int \<Rightarrow> int \<Rightarrow> int \<Rightarrow> int \<Rightarrow> int \<Rightarrow> int \<Rightarrow> int" where
  "bilinear_interp wx wy cdf_tl cdf_tr cdf_bl cdf_br =
     (let interp_top = drop_bit 8 ((256 - wx) * cdf_tl + wx * cdf_tr);
          interp_bottom = drop_bit 8 ((256 - wx) * cdf_bl + wx * cdf_br);
          result = drop_bit 8 ((256 - wy) * interp_top + wy * interp_bottom)
      in result)"

text \<open>
  \<open>test_bilinear_interp\<close> itself: the four fixed tile values 100, 150, 120, 180 and
  the five test positions, each giving the weights and the blended value it prints.
\<close>

definition test_positions :: "(int \<times> int) list" where
  "test_positions = [(0, 0), (160, 90), (319, 179), (80, 45), (240, 135)]"

definition test_bilinear_interp :: "(int \<times> int \<times> int) list" where
  "test_bilinear_interp =
     map (\<lambda>(local_x, local_y).
            (let wx = calc_weight_verilog local_x True;
                 wy = calc_weight_verilog local_y False
             in (wx, wy, bilinear_interp wx wy 100 150 120 180)))
         test_positions"

text \<open>
  The blend as the specification words it: each stage is the floor of the weighted sum
  divided by 256.
\<close>

definition spec_blend :: "int \<Rightarrow> int \<Rightarrow> int \<Rightarrow> int" where
  "spec_blend w a b = ((256 - w) * a + w * b) div 256"

section \<open>The golden CDF model (64tile_optimized/scripts/verify_cdf_golden.py)\<close>

text \<open>
  \<open>calculate_cdf\<close> works on NumPy values. The histogram is converted to an int32
  array, and every scalar read from it is an int32: a sum or difference of int32 values,
  or of an int32 and a small Python integer, is an int32 again and wraps around at
  \<open>2 ^ 31\<close>. So do the accumulated \<open>total_excess\<close> and the bins that the
  redistribution updates. The wrap-around is written out with \<open>wrap_int32\<close>; a Python
  integer that does not fit int32 raises \<open>OverflowError\<close> when it meets an int32 in a
  subtraction. \<open>np.cumsum\<close> of the int32 array is an int64 array, which the sums of
  the bins cannot leave, and the result is a uint8 array. Indexing an array out of
  range raises \<open>IndexError\<close>, and \<open>total_excess // self.bins\<close> with no bins raises
  \<open>ZeroDivisionError\<close> (no loop has run, so \<open>total_excess\<close> is still the Python 0).
  The number of bins is taken below \<open>2 ^ 31\<close>.
\<close>

datatype py_error = IndexError | ZeroDivisionError | OverflowError

text \<open>The value an int32 keeps of an integer: its residue in \<open>-2 ^ 31 ..< 2 ^ 31\<close>.\<close>

definition wrap_int32 :: "int \<Rightarrow> int" where
  "wrap_int32 x = (x + 2 ^ 31) mod 2 ^ 32 - 2 ^ 31"

record CLAHEGoldenModel =
  bins :: nat
  tile_pixels :: nat

text \<open>\<open>CLAHEGoldenModel()\<close> with the default arguments of \<open>__init__\<close>, as \<open>main\<close> builds it.\<close>

definition golden_model :: CLAHEGoldenModel where
  "golden_model = \<lparr>bins = 256, tile_pixels = 14400\<rparr>"

text \<open>
  Step 1, the body of the clipping loop at bin \<open>i\<close>. The excess and the accumulated
  total are int32 values; the bin receives \<open>clip_limit\<close> itself, which is below the
  int32 it is compared with.
\<close>

fun clip_bin :: "int \<Rightarrow> int list \<times> int \<Rightarrow> nat \<Rightarrow> int list \<times> int" where
  "clip_bin clip_limit (clipped_hist, total_excess) i =
     (if clipped_hist ! i > clip_limit then
        (let excess = wrap_int32 (clipped_hist ! i - clip_limit)
         in (clipped_hist[i := clip_limit], wrap_int32 (total_excess + excess)))
      else (clipped_hist, total_excess))"

definition clip_pass :: "nat \<Rightarrow> int \<Rightarrow> int list \<Rightarrow> int list \<times> int" where
  "clip_pass n clip_limit histogram = foldl (clip_bin clip_limit) (histogram, 0) [0..<n]"

text \<open>Step 2, the body of the redistribution loop at bin \<open>i\<close>: two int32 additions.\<close>

definition redistribute_bin :: "int \<Rightarrow> int \<Rightarrow> int list \<Rightarrow> nat \<Rightarrow> int list" where
  "redistribute_bin avg_increment remainder clipped_hist i =
     (let h = clipped_hist[i := wrap_int32 (clipped_hist ! i + avg_increment)]
      in if int i < remainder then h[i := wrap_int32 (h ! i + 1)] else h)"

definition redistribute_pass :: "nat \<Rightarrow> int \<Rightarrow> int \<Rightarrow> int list \<Rightarrow> int list" where
  "redistribute_pass n avg_increment remainder clipped_hist =
     foldl (redistribute_bin avg_increment remainder) clipped_hist [0..<n]"

text \<open>
  Steps 1 and 2 together (lines 36 to 53): the clipped and redistributed histogram, or
  the exception the loops raise. With no bins neither loop runs and the division
  raises. Otherwise the first iteration reads bin 0, which raises on an empty array, and
  a clip limit below \<open>-2 ^ 31\<close> is below every int32, so that the subtraction of line 41
  raises at bin 0; a histogram shorter than \<open>bins\<close> raises at its first missing bin.
  Python's \<open>//\<close> and \<open>%\<close> round towards minus infinity, as \<open>div\<close> and \<open>mod\<close> do.
\<close>

definition contrast_limit :: "CLAHEGoldenModel \<Rightarrow> int list \<Rightarrow> int \<Rightarrow> py_error + int list" where
  "contrast_limit self histogram clip_limit =
     (if bins self = 0 then Inl ZeroDivisionError
      else if histogram = [] then Inl IndexError
      else if clip_limit < - (2 ^ 31) then Inl OverflowError
      else if length histogram < bins self then Inl IndexError
      else
        (let (clipped_hist, total_excess) =
               clip_pass (bins self) clip_limit (map wrap_int32 histogram);
             avg_increment = total_excess div int (bins self);
             remainder = total_excess mod int (bins self)
         in Inr (redistribute_pass (bins self) avg_increment remainder clipped_hist)))"

text \<open>Step 3, \<open>np.cumsum\<close>: the running sum.\<close>

fun cumsum_from :: "int \<Rightarrow> int list \<Rightarrow> int list" where
  "cumsum_from acc [] = []"
| "cumsum_from acc (x # xs) = (acc + x) # cumsum_from (acc + x) xs"

definition cumsum :: "int list \<Rightarrow> int list" where
  "cumsum xs = cumsum_from 0 xs"

text \<open>
  Step 4 (lines 60 to 66): \<open>cdf_min\<close> starts as \<open>cdf[0]\<close> and becomes the first
  strictly positive value among the first \<open>bins\<close> entries, when there is one.
\<close>

definition first_nonzero_cdf :: "nat \<Rightarrow> int list \<Rightarrow> int" where
  "first_nonzero_cdf n cdf =
     (case find (\<lambda>v. v > 0) (take n cdf) of Some v \<Rightarrow> v | None \<Rightarrow> cdf ! 0)"

text \<open>
  Line 75 multiplies by the float \<open>255.0\<close>, divides in float64 and converts with
  \<open>astype(np.uint8)\<close>. The quotient is modelled by the exact real quotient: the product
  is an integer far below \<open>2 ^ 53\<close>, so it is exact, and the single rounding of the
  division cannot move a quotient of such integers across an integer, so the integer
  part is the one computed here (\<open>rounded_quotient_trunc\<close> below). The conversion
  truncates towards zero. A truncated
  value outside 0..255 has no value defined by C or NumPy: what the platform returns for
  it is the parameter \<open>out_of_range\<close>. \<open>low_byte\<close> is the conversion of an x86-64
  build: it converts to a 32-bit integer and keeps the low eight bits, and gives 0 when
  the truncated value does not fit 32 bits.
\<close>

definition trunc_toward_zero :: "real \<Rightarrow> int" where
  "trunc_toward_zero x = (if 0 \<le> x then \<lfloor>x\<rfloor> else \<lceil>x\<rceil>)"

definition astype_uint8 :: "(int \<Rightarrow> int) \<Rightarrow> real \<Rightarrow> int" where
  "astype_uint8 out_of_range x =
     (let t = trunc_toward_zero x
      in if 0 \<le> t \<and> t \<le> 255 then t else out_of_range t)"

definition low_byte :: "int \<Rightarrow> int" where
  "low_byte t = (if - (2 ^ 31) \<le> t \<and> t < 2 ^ 31 then t AND 255 else 0)"

text \<open>Steps 3 and 4 together (lines 56 to 77), on the clipped histogram.\<close>

definition normalize_cdf :: "(int \<Rightarrow> int) \<Rightarrow> nat \<Rightarrow> int list \<Rightarrow> int list" where
  "normalize_cdf out_of_range n clipped_hist =
     (let cdf = cumsum clipped_hist;
          cdf_min = first_nonzero_cdf n cdf;
          total = last cdf
      in if total = cdf_min \<or> total = 0 then replicate n 0
         else map (\<lambda>v. astype_uint8 out_of_range
                          (real_of_int (v - cdf_min) * 255 / real_of_int (total - cdf_min)))
                  cdf)"

definition calculate_cdf ::
    "(int \<Rightarrow> int) \<Rightarrow> CLAHEGoldenModel \<Rightarrow> int list \<Rightarrow> int \<Rightarrow> py_error + int list" where
  "calculate_cdf out_of_range self histogram clip_limit =
     (case contrast_limit self histogram clip_limit of
        Inl e \<Rightarrow> Inl e
      | Inr clipped_hist \<Rightarrow> Inr (normalize_cdf out_of_range (bins self) clipped_hist))"

text \<open>
  The normalised entry as the specification words it: the floor of the scaled
  difference, clamped into 0..255.
\<close>

definition spec_cdf_entry :: "int \<Rightarrow> int \<Rightarrow> int \<Rightarrow> int" where
  "spec_cdf_entry v cdf_min cdf_total =
     max 0 (min 255 (((v - cdf_min) * 255) div (cdf_total - cdf_min)))"

text \<open>
  The total excess as the specification words it: the sum, over the bins, of what each
  count has above the clip limit.
\<close>

definition excess_total :: "int \<Rightarrow> int list \<Rightarrow> int" where
  "excess_total clip_limit histogram = (\<Sum>x\<leftarrow>histogram. max 0 (x - clip_limit))"

text \<open>
  The clipped and redistributed histogram as the specification words it, on unbounded
  integers: every bin is cut at the clip limit, receives the quotient of the total
  excess by the number of bins and, when its index is below the remainder, one more.
\<close>

definition spec_redistribute :: "int \<Rightarrow> int list \<Rightarrow> int list" where
  "spec_redistribute clip_limit histogram =
     map (\<lambda>i. min (histogram ! i) clip_limit
                 + excess_total clip_limit histogram div int (length histogram)
                 + (if int i < excess_total clip_limit histogram mod int (length histogram)
                    then 1 else 0))
         [0..<length histogram]"

text \<open>A histogram that is empty except for \<open>count\<close> pixels in bin \<open>k\<close>.\<close>

definition single_bin :: "nat \<Rightarrow> nat \<Rightarrow> int \<Rightarrow> int list" where
  "single_bin n k count = (replicate n 0)[k := count]"

text \<open>
  A 256-bin histogram of ten pixels whose first ten bins are empty: five pixels in
  bin 10 and five in bin 20.
\<close>

definition leading_empty_hist :: "int list" where
  "leading_empty_hist = replicate 10 0 @ [5] @ replicate 9 0 @ [5] @ replicate 235 0"

text \<open>
  A 256-bin histogram of int32 counts whose total, 3000000000, is above \<open>2 ^ 31\<close>.
\<close>

definition overflow_hist :: "int list" where
  "overflow_hist = [1500000000, 1500000000] @ replicate 254 0"

section \<open>Weights: basic facts\<close>

lemma shift10_mono: "(a::int) \<le> b \<Longrightarrow> drop_bit 10 a \<le> drop_bit 10 b"
  by (simp add: drop_bit_eq_div zdiv_mono1)

lemma offset_mono:
  fixes a b :: int
  assumes "a \<le> b"
  shows "(if a < 0 then - (drop_bit 10 (- a)) else drop_bit 10 a)
       \<le> (if b < 0 then - (drop_bit 10 (- b)) else drop_bit 10 b)"
proof -
  have neg: "- (drop_bit 10 (- x)) \<le> 0" if "x < 0" for x :: int
    using that by (simp add: drop_bit_eq_div pos_imp_zdiv_nonneg_iff)
  have pos: "0 \<le> drop_bit 10 x" if "0 \<le> x" for x :: int
    using that by (simp add: drop_bit_eq_div pos_imp_zdiv_nonneg_iff)
  consider "b < 0" | "a < 0" "0 \<le> b" | "0 \<le> a" using assms by linarith
  then show ?thesis
  proof cases
    case 1
    then have "a < 0" using assms by simp
    moreover have "drop_bit 10 (- b) \<le> drop_bit 10 (- a)"
      using assms by (intro shift10_mono) simp
    ultimately show ?thesis using 1 by simp
  next
    case 2
    from 2 have "- (drop_bit 10 (- a)) \<le> 0" by (intro neg)
    moreover from 2 have "0 \<le> drop_bit 10 b" by (intro pos)
    ultimately have "- (drop_bit 10 (- a)) \<le> drop_bit 10 b" by linarith
    then show ?thesis using 2 by simp
  next
    case 3
    then have "0 \<le> b" using assms by simp
    then show ?thesis using 3 assms by (simp add: shift10_mono)
  qed
qed

lemma calc_current_weight_eq: "calc_current_weight dx = calc_weight_fixed dx True"
  by (simp add: calc_current_weight_def calc_weight_fixed_def Let_def)

section \<open>Weights: the claims\<close>

text \<open>
  C7. The fixed-point weight is exactly 128 at offset 0, and it never decreases when
  the signed offset grows, on the x axis (multiplier 819) and on the y axis
  (multiplier 1456).
\<close>

theorem calc_weight_fixed_centre_mono:
  "calc_weight_fixed 0 is_x_axis = 128 \<and>
   (d1 \<le> d2 \<longrightarrow> calc_weight_fixed d1 is_x_axis \<le> calc_weight_fixed d2 is_x_axis)"
proof
  show "calc_weight_fixed 0 is_x_axis = 128"
    by (simp add: calc_weight_fixed_def)
next
  show "d1 \<le> d2 \<longrightarrow> calc_weight_fixed d1 is_x_axis \<le> calc_weight_fixed d2 is_x_axis"
  proof
    assume le: "d1 \<le> d2"
    have x: "d1 * 819 \<le> d2 * 819" and y: "d1 * 1456 \<le> d2 * 1456"
      using le by simp_all
    show "calc_weight_fixed d1 is_x_axis \<le> calc_weight_fixed d2 is_x_axis"
      using offset_mono [OF x] offset_mono [OF y]
      by (simp add: calc_weight_fixed_def Let_def)
  qed
qed

theorem calc_weight_fixed_centre_mono_witness:
  "(-160::int) \<le> 159 \<and> calc_weight_fixed 0 True = 128 \<and>
   calc_weight_fixed (-160) True \<le> calc_weight_fixed 159 True"
  using calc_weight_fixed_centre_mono [of True "-160" 159] by simp


text \<open>
  C5. Claimed: at half the tile dimension the weight saturates exactly, 0 at the
  negative end and 255 at the positive end, on both axes. The negative end gives 1.
\<close>

theorem calc_weight_fixed_saturation_counterexample:
  "\<not> (calc_weight_fixed (- 160) True = 0 \<and> calc_weight_fixed 160 True = 255 \<and>
      calc_weight_fixed (- 90) False = 0 \<and> calc_weight_fixed 90 False = 255)"
  by (simp add: calc_weight_fixed_def drop_bit_eq_div)

text \<open>
  C5, amended. At half the tile dimension the weight is 255 at the positive end and 1
  at the negative end, on both axes: \<open>160 * 819 = 90 * 1456 = 131040\<close>, whose shift by
  10 is 127, so the results \<open>128 + 127\<close> and \<open>128 - 127\<close> are inside 0..255 and the
  saturation is not reached.
\<close>

theorem calc_weight_fixed_half_tile:
  "calc_weight_fixed (- (TILE_WIDTH div 2)) True = 1 \<and>
   calc_weight_fixed (TILE_WIDTH div 2) True = 255 \<and>
   calc_weight_fixed (- (TILE_HEIGHT div 2)) False = 1 \<and>
   calc_weight_fixed (TILE_HEIGHT div 2) False = 255"
  by (simp add: calc_weight_fixed_def TILE_WIDTH_def TILE_HEIGHT_def drop_bit_eq_div)

text \<open>
  C8. For two horizontally adjacent tiles of width 320, the weight at the last column
  of the left tile (local x 319) is within one unit of 255, and the weight at the first
  column of the right tile (local x 0) is within one unit of 0.
\<close>

theorem calc_weight_fixed_seam:
  "\<bar>255 - calc_weight_fixed (319 - TILE_CENTER_X) True\<bar> \<le> 1 \<and>
   \<bar>calc_weight_fixed (0 - TILE_CENTER_X) True - 0\<bar> \<le> 1"
  by (simp add: calc_weight_fixed_def TILE_CENTER_X_def drop_bit_eq_div)

section \<open>Bilinear interpolation\<close>

lemma spec_blend_range:
  fixes w a b :: int
  assumes "0 \<le> w" "w \<le> 256" "0 \<le> a" "a \<le> 255" "0 \<le> b" "b \<le> 255"
  shows "0 \<le> spec_blend w a b \<and> spec_blend w a b \<le> 255"
proof -
  have nonneg: "0 \<le> (256 - w) * a" "0 \<le> w * b" using assms by simp_all
  have "(256 - w) * a \<le> (256 - w) * 255" using assms by (intro mult_left_mono) simp_all
  moreover have "w * b \<le> w * 255" using assms by (intro mult_left_mono) simp_all
  ultimately have "(256 - w) * a + w * b \<le> (256 - w) * 255 + w * 255" by linarith
  also have "\<dots> = 255 * 256" by (simp add: algebra_simps)
  finally have "((256 - w) * a + w * b) div 256 \<le> (255 * 256) div 256"
    by (rule zdiv_mono1) simp
  moreover have "0 \<le> ((256 - w) * a + w * b) div 256"
    using nonneg by (simp add: pos_imp_zdiv_nonneg_iff)
  ultimately show ?thesis by (simp add: spec_blend_def)
qed

lemma bilinear_interp_spec:
  "bilinear_interp wx wy a b c d = spec_blend wy (spec_blend wx a b) (spec_blend wx c d)"
  by (simp add: bilinear_interp_def spec_blend_def drop_bit_eq_div Let_def)

text \<open>The weights that \<open>test_bilinear_interp\<close> feeds into the blend are in 0..255.\<close>

lemma calc_weight_verilog_range:
  "0 \<le> calc_weight_verilog local_coord is_x_axis \<and>
   calc_weight_verilog local_coord is_x_axis \<le> 255"
  by (simp add: calc_weight_verilog_def Let_def AND_upper2')

lemma test_bilinear_interp_values:
  "test_bilinear_interp =
     [(0, 0, 100), (127, 127, 136), (255, 254, 178), (63, 63, 117), (191, 191, 157)]"
  by (simp add: test_bilinear_interp_def test_positions_def calc_weight_verilog_def
      bilinear_interp_def drop_bit_eq_div and_int.rec [of _ 255] Let_def)

text \<open>
  C10. With both weights and the four tile values in 0..255, the interpolated value is
  the nested blend: the top and the bottom pair are each blended with \<open>wx\<close> and floored
  after division by 256, their results are blended with \<open>wy\<close> in the same way, and the
  result lies in 0..255.
\<close>

theorem bilinear_interp_nested_range:
  assumes "0 \<le> wx" "wx \<le> 255" "0 \<le> wy" "wy \<le> 255"
    and "0 \<le> v_tl" "v_tl \<le> 255" "0 \<le> v_tr" "v_tr \<le> 255"
    and "0 \<le> v_bl" "v_bl \<le> 255" "0 \<le> v_br" "v_br \<le> 255"
  shows "bilinear_interp wx wy v_tl v_tr v_bl v_br =
           ((256 - wy) * (((256 - wx) * v_tl + wx * v_tr) div 256)
             + wy * (((256 - wx) * v_bl + wx * v_br) div 256)) div 256
       \<and> 0 \<le> bilinear_interp wx wy v_tl v_tr v_bl v_br
       \<and> bilinear_interp wx wy v_tl v_tr v_bl v_br \<le> 255"
proof -
  have top: "0 \<le> spec_blend wx v_tl v_tr \<and> spec_blend wx v_tl v_tr \<le> 255"
    using assms by (intro spec_blend_range) simp_all
  have bottom: "0 \<le> spec_blend wx v_bl v_br \<and> spec_blend wx v_bl v_br \<le> 255"
    using assms by (intro spec_blend_range) simp_all
  have "0 \<le> spec_blend wy (spec_blend wx v_tl v_tr) (spec_blend wx v_bl v_br)
      \<and> spec_blend wy (spec_blend wx v_tl v_tr) (spec_blend wx v_bl v_br) \<le> 255"
    using assms top bottom by (intro spec_blend_range) simp_all
  then show ?thesis
    by (simp add: bilinear_interp_spec) (simp add: spec_blend_def)
qed

theorem bilinear_interp_nested_range_witness:
  "(0::int) \<le> 127 \<and> (127::int) \<le> 255 \<and> (0::int) \<le> 100 \<and> (180::int) \<le> 255 \<and>
   bilinear_interp 127 127 100 150 120 180 = 136 \<and>
   0 \<le> bilinear_interp 127 127 100 150 120 180 \<and>
   bilinear_interp 127 127 100 150 120 180 \<le> 255"
  using bilinear_interp_nested_range [of 127 127 100 150 120 180] by simp

section \<open>Contrast limiting: the int32 wrap-around\<close>

lemma wrap_int32_id: "- (2 ^ 31) \<le> x \<Longrightarrow> x < 2 ^ 31 \<Longrightarrow> wrap_int32 x = x"
  by (simp add: wrap_int32_def)

lemma wrap_int32_range: "- (2 ^ 31) \<le> wrap_int32 x \<and> wrap_int32 x < 2 ^ 31"
proof -
  have "0 \<le> (x + 2 ^ 31) mod 2 ^ 32" "(x + 2 ^ 31) mod 2 ^ 32 < (2 ^ 32 :: int)"
    by simp_all
  then show ?thesis by (simp add: wrap_int32_def)
qed

lemma wrap_int32_le: "- (2 ^ 31) \<le> x \<Longrightarrow> wrap_int32 x \<le> x"
proof -
  assume "- (2 ^ 31) \<le> x"
  then have "0 \<le> x + 2 ^ 31" by simp
  then have "(x + 2 ^ 31) mod 2 ^ 32 \<le> x + 2 ^ 31" by (rule zmod_le_nonneg_dividend)
  then show ?thesis by (simp add: wrap_int32_def)
qed

lemma map_wrap_int32_id:
  "\<forall>x\<in>set h. - (2 ^ 31) \<le> x \<and> x < 2 ^ 31 \<Longrightarrow> map wrap_int32 h = h"
  by (induction h) (simp_all add: wrap_int32_id)

section \<open>Contrast limiting: the two loops\<close>

lemma clip_pass_Suc: "clip_pass (Suc n) c h = clip_bin c (clip_pass n c h) n"
  by (simp add: clip_pass_def)

text \<open>The bins after the clipping loop, whatever the accumulated total does.\<close>

lemma clip_pass_fst:
  "n \<le> length h \<Longrightarrow>
   length (fst (clip_pass n c h)) = length h \<and>
   (\<forall>i < length h. fst (clip_pass n c h) ! i = (if i < n then min (h ! i) c else h ! i))"
proof (induction n)
  case 0
  then show ?case by (simp add: clip_pass_def)
next
  case (Suc n)
  obtain g te where gte: "clip_pass n c h = (g, te)" by (cases "clip_pass n c h")
  from Suc have n: "n < length h" by simp
  from Suc gte have len: "length g = length h"
    and nth: "\<And>i. i < length h \<Longrightarrow> g ! i = (if i < n then min (h ! i) c else h ! i)"
    by simp_all
  have gn: "g ! n = h ! n" using nth [OF n] by simp
  show ?case
  proof (cases "h ! n > c")
    case True
    then have "fst (clip_pass (Suc n) c h) = g[n := c]"
      by (simp add: clip_pass_Suc gte gn Let_def)
    then show ?thesis
      using True n len nth by (auto simp: nth_list_update less_Suc_eq)
  next
    case False
    then have "fst (clip_pass (Suc n) c h) = g"
      by (simp add: clip_pass_Suc gte gn)
    then show ?thesis
      using False n len nth by (auto simp: less_Suc_eq)
  qed
qed

text \<open>The accumulated total is 0 or an int32.\<close>

lemma clip_pass_snd_range:
  "- (2 ^ 31) \<le> snd (clip_pass n c h) \<and> snd (clip_pass n c h) < 2 ^ 31"
proof (induction n)
  case 0
  then show ?case by (simp add: clip_pass_def)
next
  case (Suc n)
  obtain g te where gte: "clip_pass n c h = (g, te)" by (cases "clip_pass n c h")
  with Suc have te: "- (2 ^ 31) \<le> te \<and> te < 2 ^ 31" by simp
  show ?case
    using te wrap_int32_range [of "te + wrap_int32 (g ! n - c)"]
    by (simp add: clip_pass_Suc gte Let_def)
qed

lemma sum_list_map_upt: "sum_list (map f [0..<n]) = (\<Sum>i<n. f i)"
  by (simp add: interv_sum_list_conv_sum_set_nat atLeast0LessThan)

lemma sum_list_map_nth: "(\<Sum>x\<leftarrow>h. f x) = (\<Sum>i<length h. f (h ! i))"
  by (simp add: sum_list_sum_nth atLeast0LessThan)

lemma excess_total_nth: "excess_total c h = (\<Sum>i<length h. max 0 (h ! i - c))"
  by (simp add: excess_total_def sum_list_map_nth)

lemma excess_total_nonneg: "0 \<le> excess_total c h"
  by (simp add: excess_total_nth sum_nonneg)

lemma member_le_sum_list_int:
  fixes xs :: "int list"
  shows "\<forall>y\<in>set xs. 0 \<le> y \<Longrightarrow> x \<in> set xs \<Longrightarrow> x \<le> sum_list xs"
proof (induction xs)
  case Nil
  then show ?case by simp
next
  case (Cons a xs)
  have "0 \<le> sum_list xs" using Cons.prems(1) by (simp add: sum_list_nonneg)
  then show ?case using Cons by auto
qed

lemma excess_total_le_sum:
  "\<forall>x\<in>set h. 0 \<le> x \<Longrightarrow> 0 \<le> c \<Longrightarrow> excess_total c h \<le> sum_list h"
  unfolding excess_total_def by (induction h) auto

text \<open>
  The excess accumulated over the first \<open>n\<close> bins is at most the whole excess, so that
  for non-negative counts with a total below \<open>2 ^ 31\<close> no accumulation wraps around.
\<close>

lemma partial_excess_le:
  assumes "n \<le> length h"
  shows "(\<Sum>i<n. max 0 (h ! i - c)) \<le> excess_total c h"
proof -
  have "(\<Sum>i<n. max 0 (h ! i - c)) \<le> (\<Sum>i<length h. max 0 (h ! i - c))"
    using assms by (intro sum_mono2) auto
  then show ?thesis by (simp add: excess_total_nth)
qed

lemma clip_pass_snd:
  assumes nonneg: "\<forall>x\<in>set h. 0 \<le> x" and c: "0 \<le> c" and total: "sum_list h < 2 ^ 31"
  shows "n \<le> length h \<Longrightarrow> snd (clip_pass n c h) = (\<Sum>i<n. max 0 (h ! i - c))"
proof (induction n)
  case 0
  then show ?case by (simp add: clip_pass_def)
next
  case (Suc n)
  obtain g te where gte: "clip_pass n c h = (g, te)" by (cases "clip_pass n c h")
  from Suc have n: "n < length h" by simp
  from Suc gte have te: "te = (\<Sum>i<n. max 0 (h ! i - c))" by simp
  have gn: "g ! n = h ! n"
    using clip_pass_fst [of n h c] n gte by simp
  have bound: "(\<Sum>i<Suc n. max 0 (h ! i - c)) < 2 ^ 31"
    using partial_excess_le [of "Suc n" h c] excess_total_le_sum [OF nonneg c] total n
    by simp
  have te0: "0 \<le> te" by (simp add: te sum_nonneg)
  show ?case
  proof (cases "h ! n > c")
    case True
    have ex: "0 < h ! n - c" "h ! n - c < 2 ^ 31"
      using True bound te0 te by simp_all
    then have w1: "wrap_int32 (h ! n - c) = h ! n - c"
      by (intro wrap_int32_id) simp_all
    have "wrap_int32 (te + (h ! n - c)) = te + (h ! n - c)"
      using True bound te0 te by (intro wrap_int32_id) simp_all
    then show ?thesis
      using True by (simp add: clip_pass_Suc gte gn Let_def w1 te)
  next
    case False
    then show ?thesis
      by (simp add: clip_pass_Suc gte gn te)
  qed
qed

lemma redistribute_pass_Suc:
  "redistribute_pass (Suc n) a r h = redistribute_bin a r (redistribute_pass n a r h) n"
  by (simp add: redistribute_pass_def)

lemma redistribute_pass_inv:
  "n \<le> length h \<Longrightarrow>
   length (redistribute_pass n a r h) = length h \<and>
   (\<forall>i < length h. redistribute_pass n a r h ! i =
      (if i < n then
         (if int i < r then wrap_int32 (wrap_int32 (h ! i + a) + 1)
          else wrap_int32 (h ! i + a))
       else h ! i))"
proof (induction n)
  case 0
  then show ?case by (simp add: redistribute_pass_def)
next
  case (Suc n)
  define g where "g = redistribute_pass n a r h"
  from Suc have n: "n < length h" by simp
  from Suc have len: "length g = length h"
    and nth: "\<And>i. i < length h \<Longrightarrow>
        g ! i = (if i < n then
                   (if int i < r then wrap_int32 (wrap_int32 (h ! i + a) + 1)
                    else wrap_int32 (h ! i + a))
                 else h ! i)"
    by (simp_all add: g_def)
  have gn: "g ! n = h ! n" using nth [OF n] by simp
  have step: "redistribute_pass (Suc n) a r h =
      g[n := (if int n < r then wrap_int32 (wrap_int32 (h ! n + a) + 1)
              else wrap_int32 (h ! n + a))]"
    using n len by (simp add: redistribute_pass_Suc g_def [symmetric] redistribute_bin_def Let_def gn)
  show ?case
    using n len nth by (auto simp: step nth_list_update less_Suc_eq)
qed

text \<open>What steps 1 and 2 return on any histogram that has all its bins.\<close>

lemma contrast_limit_code:
  assumes "bins self = length h" "0 < length h" "- (2 ^ 31) \<le> c"
  shows "contrast_limit self h c =
     Inr (map (\<lambda>i. if int i < snd (clip_pass (length h) c (map wrap_int32 h)) mod int (length h)
                    then wrap_int32 (wrap_int32 (min (wrap_int32 (h ! i)) c
                           + snd (clip_pass (length h) c (map wrap_int32 h)) div int (length h)) + 1)
                    else wrap_int32 (min (wrap_int32 (h ! i)) c
                           + snd (clip_pass (length h) c (map wrap_int32 h)) div int (length h)))
              [0..<length h])"
proof -
  let ?n = "length h" and ?h = "map wrap_int32 h"
  obtain g te where gte: "clip_pass ?n c ?h = (g, te)" by (cases "clip_pass ?n c ?h")
  from clip_pass_fst [of ?n ?h c] gte have len: "length g = ?n"
    and nth: "\<And>i. i < ?n \<Longrightarrow> g ! i = min (wrap_int32 (h ! i)) c"
    by simp_all
  let ?out = "redistribute_pass ?n (te div int ?n) (te mod int ?n) g"
  from redistribute_pass_inv [of ?n g "te div int ?n" "te mod int ?n"] len
  have olen: "length ?out = ?n"
    and onth: "\<And>i. i < ?n \<Longrightarrow>
       ?out ! i = (if int i < te mod int ?n
                   then wrap_int32 (wrap_int32 (g ! i + te div int ?n) + 1)
                   else wrap_int32 (g ! i + te div int ?n))"
    by simp_all
  have "?out = map (\<lambda>i. if int i < te mod int ?n
                    then wrap_int32 (wrap_int32 (min (wrap_int32 (h ! i)) c + te div int ?n) + 1)
                    else wrap_int32 (min (wrap_int32 (h ! i)) c + te div int ?n)) [0..<?n]"
    by (rule nth_equalityI) (simp_all add: olen onth nth)
  moreover have "h \<noteq> []" using assms(2) by auto
  ultimately show ?thesis
    using assms by (simp add: contrast_limit_def gte)
qed

lemma sum_indicator_below:
  assumes "0 \<le> r" "r \<le> int n"
  shows "(\<Sum>i<n. if int i < r then (1::int) else 0) = r"
proof -
  have "{i. i < n \<and> int i < r} = {..<nat r}" using assms by auto
  then have "(\<Sum>i<n. if int i < r then (1::int) else 0) = int (card {..<nat r})"
    by (simp add: sum.If_cases Int_def lessThan_def)
  then show ?thesis using assms by simp
qed

section \<open>Contrast limiting: the histogram of the specification\<close>

lemma spec_redistribute_length [simp]: "length (spec_redistribute c h) = length h"
  by (simp add: spec_redistribute_def)

lemma spec_redistribute_nth:
  "i < length h \<Longrightarrow>
   spec_redistribute c h ! i =
     min (h ! i) c + excess_total c h div int (length h)
       + (if int i < excess_total c h mod int (length h) then 1 else 0)"
  by (simp add: spec_redistribute_def)

lemma spec_redistribute_sum:
  assumes "0 < length h"
  shows "sum_list (spec_redistribute c h) = sum_list h"
proof -
  let ?n = "length h"
  let ?te = "excess_total c h"
  have r: "0 \<le> ?te mod int ?n" "?te mod int ?n \<le> int ?n"
    using assms by (simp_all add: less_imp_le)
  have split: "min (h ! i) c = h ! i - max 0 (h ! i - c)" for i by simp
  have "(\<Sum>i<?n. min (h ! i) c + ?te div int ?n + (if int i < ?te mod int ?n then 1 else 0))
       = (\<Sum>i<?n. min (h ! i) c) + int ?n * (?te div int ?n) + ?te mod int ?n"
    by (simp add: sum.distrib sum_indicator_below [OF r])
  also have "(\<Sum>i<?n. min (h ! i) c) = sum_list h - ?te"
    by (simp only: split sum_subtractf excess_total_nth sum_list_map_nth [of "\<lambda>x. x", simplified])
  finally have "(\<Sum>i<?n. min (h ! i) c + ?te div int ?n + (if int i < ?te mod int ?n then 1 else 0))
       = sum_list h" by simp
  then show ?thesis
    by (simp add: spec_redistribute_def sum_list_map_upt)
qed

lemma spec_redistribute_nonneg:
  assumes "\<forall>x\<in>set h. 0 \<le> x" "0 \<le> c" "i < length h"
  shows "0 \<le> min (h ! i) c + excess_total c h div int (length h)"
proof -
  have "0 \<le> h ! i" using assms(1,3) by simp
  moreover have "0 < int (length h)" using assms(3) by (cases h) simp_all
  then have "0 \<le> excess_total c h div int (length h)"
    using excess_total_nonneg [of c h] by (simp only: pos_imp_zdiv_nonneg_iff)
  ultimately show ?thesis using assms(2) by simp
qed

lemma spec_redistribute_set_nonneg:
  assumes "\<forall>x\<in>set h. 0 \<le> x" "0 \<le> c"
  shows "\<forall>x\<in>set (spec_redistribute c h). 0 \<le> x"
proof
  fix x assume "x \<in> set (spec_redistribute c h)"
  then obtain i where i: "i < length h" "x = spec_redistribute c h ! i"
    by (auto simp: in_set_conv_nth)
  then show "0 \<le> x"
    using spec_redistribute_nonneg [OF assms i(1)] by (simp add: spec_redistribute_nth)
qed

lemma spec_redistribute_le_sum:
  assumes "\<forall>x\<in>set h. 0 \<le> x" "0 \<le> c" "i < length h"
  shows "spec_redistribute c h ! i \<le> sum_list h"
proof -
  have "spec_redistribute c h ! i \<in> set (spec_redistribute c h)"
    using assms(3) by simp
  then have "spec_redistribute c h ! i \<le> sum_list (spec_redistribute c h)"
    using spec_redistribute_set_nonneg [OF assms(1,2)] by (intro member_le_sum_list_int)
  moreover have "0 < length h" using assms(3) by (cases h) simp_all
  ultimately show ?thesis by (simp add: spec_redistribute_sum)
qed

text \<open>
  For non-negative counts with a total below \<open>2 ^ 31\<close> and a non-negative clip limit,
  no int32 operation of steps 1 and 2 wraps around: the code returns the histogram of
  the specification.
\<close>

lemma contrast_limit_eq:
  assumes b: "bins self = length h" "0 < length h"
    and nonneg: "\<forall>x\<in>set h. 0 \<le> x" and c: "0 \<le> c" and total: "sum_list h < 2 ^ 31"
  shows "contrast_limit self h c = Inr (spec_redistribute c h)"
proof -
  let ?n = "length h" and ?te = "excess_total c h"
  have inrange: "\<forall>x\<in>set h. - (2 ^ 31) \<le> x \<and> x < 2 ^ 31"
  proof
    fix x assume x: "x \<in> set h"
    then have "x \<le> sum_list h" using nonneg by (intro member_le_sum_list_int)
    then show "- (2 ^ 31) \<le> x \<and> x < 2 ^ 31" using x nonneg total by auto
  qed
  then have h32: "map wrap_int32 h = h" by (rule map_wrap_int32_id)
  have wi: "wrap_int32 (h ! i) = h ! i" if "i < ?n" for i
    using that inrange by (intro wrap_int32_id) simp_all
  have te: "snd (clip_pass ?n c h) = ?te"
    using clip_pass_snd [OF nonneg c total, of ?n] by (simp add: excess_total_nth)
  have entry: "(if int i < ?te mod int ?n
                then wrap_int32 (wrap_int32 (min (h ! i) c + ?te div int ?n) + 1)
                else wrap_int32 (min (h ! i) c + ?te div int ?n))
             = min (h ! i) c + ?te div int ?n + (if int i < ?te mod int ?n then 1 else 0)"
    if i: "i < ?n" for i
  proof -
    let ?v = "min (h ! i) c + ?te div int ?n"
    have lo: "0 \<le> ?v" by (rule spec_redistribute_nonneg [OF nonneg c i])
    have hi: "?v + (if int i < ?te mod int ?n then 1 else 0) < 2 ^ 31"
      using spec_redistribute_le_sum [OF nonneg c i] total
      by (simp add: spec_redistribute_nth [OF i])
    have v: "wrap_int32 ?v = ?v"
      using lo hi by (intro wrap_int32_id) (simp_all split: if_splits)
    show ?thesis
    proof (cases "int i < ?te mod int ?n")
      case True
      then have "wrap_int32 (?v + 1) = ?v + 1"
        using lo hi by (intro wrap_int32_id) simp_all
      then show ?thesis using True by (simp add: v)
    next
      case False
      then show ?thesis by (simp add: v)
    qed
  qed
  have "- (2 ^ 31) \<le> c" using c by simp
  then have "contrast_limit self h c =
     Inr (map (\<lambda>i. if int i < ?te mod int ?n
                    then wrap_int32 (wrap_int32 (min (wrap_int32 (h ! i)) c + ?te div int ?n) + 1)
                    else wrap_int32 (min (wrap_int32 (h ! i)) c + ?te div int ?n))
              [0..<?n])"
    using contrast_limit_code [OF b, of c] by (simp add: h32 te)
  also have "map (\<lambda>i. if int i < ?te mod int ?n
                    then wrap_int32 (wrap_int32 (min (wrap_int32 (h ! i)) c + ?te div int ?n) + 1)
                    else wrap_int32 (min (wrap_int32 (h ! i)) c + ?te div int ?n))
              [0..<?n] = spec_redistribute c h"
    unfolding spec_redistribute_def
  proof (rule map_cong [OF refl])
    fix i assume "i \<in> set [0..<?n]"
    then have i: "i < ?n" by simp
    show "(if int i < ?te mod int ?n
           then wrap_int32 (wrap_int32 (min (wrap_int32 (h ! i)) c + ?te div int ?n) + 1)
           else wrap_int32 (min (wrap_int32 (h ! i)) c + ?te div int ?n))
        = min (h ! i) c + ?te div int ?n + (if int i < ?te mod int ?n then 1 else 0)"
      unfolding wi [OF i] by (rule entry [OF i])
  qed
  finally show ?thesis .
qed

lemma contrast_limit_conserves:
  assumes "bins self = length h" "0 < length h"
    and "\<forall>x\<in>set h. 0 \<le> x" "0 \<le> c" "sum_list h < 2 ^ 31"
  shows "\<exists>out. contrast_limit self h c = Inr out \<and> length out = length h
           \<and> sum_list out = sum_list h"
  using assms by (simp add: contrast_limit_eq spec_redistribute_sum)

text \<open>The bins that the clipping loop does not touch.\<close>

lemma clip_tail_unchanged:
  "(\<forall>i. a \<le> i \<and> i < b \<longrightarrow> g ! i \<le> c) \<Longrightarrow>
   foldl (clip_bin c) (g, te) [a..<b] = (g, te)"
proof (induction b)
  case 0
  then show ?case by simp
next
  case (Suc b)
  show ?case
  proof (cases "a \<le> b")
    case True
    have "foldl (clip_bin c) (g, te) [a..<b] = (g, te)"
      using Suc by simp
    moreover have "g ! b \<le> c" using Suc.prems True by simp
    ultimately show ?thesis using True by simp
  next
    case False
    then show ?thesis by simp
  qed
qed

lemma contrast_limit_identity:
  assumes b: "bins self = length h" "0 < length h"
    and small: "\<forall>x\<in>set h. - (2 ^ 31) \<le> x \<and> x < 2 ^ 31 \<and> x \<le> c"
  shows "contrast_limit self h c = Inr h"
proof -
  let ?n = "length h"
  have h32: "map wrap_int32 h = h" using small by (intro map_wrap_int32_id) simp
  have "h ! 0 \<in> set h" using b(2) by simp
  then have c: "- (2 ^ 31) \<le> c" using small by force
  have "clip_pass ?n c h = (h, 0)"
    unfolding clip_pass_def using small by (intro clip_tail_unchanged) simp
  then have te: "snd (clip_pass ?n c h) = 0" by simp
  have "map (\<lambda>i. wrap_int32 (min (wrap_int32 (h ! i)) c)) [0..<?n] = h"
  proof (rule nth_equalityI)
    show "length (map (\<lambda>i. wrap_int32 (min (wrap_int32 (h ! i)) c)) [0..<?n]) = ?n" by simp
  next
    fix i assume "i < length (map (\<lambda>i. wrap_int32 (min (wrap_int32 (h ! i)) c)) [0..<?n])"
    then have i: "i < ?n" by simp
    then have r: "- (2 ^ 31) \<le> h ! i" "h ! i < 2 ^ 31" "h ! i \<le> c" using small by simp_all
    then have "wrap_int32 (h ! i) = h ! i" by (intro wrap_int32_id)
    then show "map (\<lambda>i. wrap_int32 (min (wrap_int32 (h ! i)) c)) [0..<?n] ! i = h ! i"
      using i r by (simp add: min_absorb1)
  qed
  then show ?thesis
    using contrast_limit_code [OF b c] by (simp add: h32 te)
qed

section \<open>Contrast limiting: a total above the int32 range\<close>

lemma clip_pass_overflow_hist:
  "clip_pass 256 1 overflow_hist = ([1, 1] @ replicate 254 0, - 1294967298)"
proof -
  have upt: "[0..<256] = [0, Suc 0] @ [2..<256]"
    using upt_add_eq_append [of 0 2 254] by (simp add: numeral_2_eq_2)
  have two: "foldl (clip_bin 1) (overflow_hist, 0) [0, Suc 0]
      = ([1, 1] @ replicate 254 0, - 1294967298)"
    by (simp add: overflow_hist_def wrap_int32_def Let_def)
  have rest: "foldl (clip_bin 1) ([1, 1] @ replicate 254 0, - 1294967298) [2..<256]
      = ([1, 1] @ replicate 254 0, - 1294967298)"
    by (rule clip_tail_unchanged) (auto simp: nth_Cons')
  show ?thesis
    by (simp only: clip_pass_def upt foldl_append two rest)
qed

lemma map_wrap_overflow_hist: "map wrap_int32 overflow_hist = overflow_hist"
  by (rule map_wrap_int32_id) (simp add: overflow_hist_def)

lemma contrast_limit_overflow_hist:
  "contrast_limit golden_model overflow_hist 1 =
     Inr ([- 5058465, - 5058465] @ replicate 252 (- 5058466) @ replicate 2 (- 5058467))"
proof -
  have len: "length overflow_hist = 256" by (simp add: overflow_hist_def)
  have b: "bins golden_model = length overflow_hist" by (simp add: golden_model_def len)
  have code: "contrast_limit golden_model overflow_hist 1 =
     Inr (map (\<lambda>i. if int i < 254
                    then wrap_int32 (wrap_int32 (min (wrap_int32 (overflow_hist ! i)) 1
                           + (- 5058467)) + 1)
                    else wrap_int32 (min (wrap_int32 (overflow_hist ! i)) 1 + (- 5058467)))
              [0..<256])"
    using contrast_limit_code [OF b, of 1]
    by (simp add: len map_wrap_overflow_hist clip_pass_overflow_hist)
  have "map (\<lambda>i. if int i < 254
                    then wrap_int32 (wrap_int32 (min (wrap_int32 (overflow_hist ! i)) 1
                           + (- 5058467)) + 1)
                    else wrap_int32 (min (wrap_int32 (overflow_hist ! i)) 1 + (- 5058467)))
              [0..<256]
      = [- 5058465, - 5058465] @ replicate 252 (- 5058466) @ replicate 2 (- 5058467)"
  proof (rule nth_equalityI)
    show "length (map (\<lambda>i. if int i < 254
                    then wrap_int32 (wrap_int32 (min (wrap_int32 (overflow_hist ! i)) 1
                           + (- 5058467)) + 1)
                    else wrap_int32 (min (wrap_int32 (overflow_hist ! i)) 1 + (- 5058467)))
              [0..<256])
        = length ([- 5058465, - 5058465] @ replicate 252 (- 5058466) @ replicate 2 (- 5058467 :: int))"
      by simp
  next
    fix i
    assume "i < length (map (\<lambda>i. if int i < 254
                    then wrap_int32 (wrap_int32 (min (wrap_int32 (overflow_hist ! i)) 1
                           + (- 5058467)) + 1)
                    else wrap_int32 (min (wrap_int32 (overflow_hist ! i)) 1 + (- 5058467)))
              [0..<256])"
    then have i: "i < 256" by simp
    consider "i = 0" | "i = 1" | "2 \<le> i" "i < 254" | "254 \<le> i" by linarith
    then show "map (\<lambda>i. if int i < 254
                    then wrap_int32 (wrap_int32 (min (wrap_int32 (overflow_hist ! i)) 1
                           + (- 5058467)) + 1)
                    else wrap_int32 (min (wrap_int32 (overflow_hist ! i)) 1 + (- 5058467)))
              [0..<256] ! i
        = ([- 5058465, - 5058465] @ replicate 252 (- 5058466) @ replicate 2 (- 5058467)) ! i"
    proof cases
      case 1
      then show ?thesis by (simp add: overflow_hist_def wrap_int32_def)
    next
      case 2
      then show ?thesis by (simp add: overflow_hist_def wrap_int32_def)
    next
      case 3
      then have "overflow_hist ! i = 0"
        using i by (simp add: overflow_hist_def nth_Cons')
      then show ?thesis using 3 i by (simp add: wrap_int32_def nth_Cons' nth_append)
    next
      case 4
      then have "overflow_hist ! i = 0"
        using i by (simp add: overflow_hist_def nth_Cons')
      then show ?thesis using 4 i by (simp add: wrap_int32_def nth_Cons' nth_append)
    qed
  qed
  then show ?thesis by (simp only: code)
qed

section \<open>Contrast limiting: the claims\<close>

text \<open>
  C1. Claimed: the sum of the bins is the same after the clip-and-redistribute pass, for
  every 256-bin histogram of non-negative counts and every positive clip limit. With
  1500000000 pixels in each of bins 0 and 1 and clip limit 1, the accumulated excess
  wraps around to -1294967298 and the bins of the result sum to -1294967296, where the
  histogram sums to 3000000000.
\<close>

theorem contrast_limit_conservation_counterexample:
  "contrast_limit golden_model overflow_hist 1 =
     Inr ([- 5058465, - 5058465] @ replicate 252 (- 5058466) @ replicate 2 (- 5058467)) \<and>
   sum_list ([- 5058465, - 5058465] @ replicate 252 (- 5058466) @ replicate 2 (- 5058467 :: int))
     = - 1294967296 \<and>
   sum_list overflow_hist = 3000000000"
proof -
  have "sum_list ([- 5058465, - 5058465] @ replicate 252 (- 5058466)
          @ replicate 2 (- 5058467 :: int)) = - 1294967296"
    by (simp add: sum_list_replicate)
  moreover have "sum_list overflow_hist = 3000000000"
    by (simp add: overflow_hist_def sum_list_replicate)
  ultimately show ?thesis
    using contrast_limit_overflow_hist by (simp only: simp_thms)
qed

text \<open>
  C1, amended. For every 256-bin histogram of non-negative counts whose total is below
  \<open>2 ^ 31\<close> and every positive clip limit, the clip-and-redistribute pass returns a
  256-bin histogram whose bins have the same sum as the input.
\<close>

theorem contrast_limit_conservation:
  assumes "bins self = 256" "length H = 256"
    and "\<forall>x\<in>set H. 0 \<le> x" "sum_list H < 2 ^ 31" "0 < c"
  shows "\<exists>out. contrast_limit self H c = Inr out \<and> length out = 256 \<and>
           sum_list out = sum_list H"
  using contrast_limit_conserves [of self H c] assms by simp

theorem contrast_limit_conservation_witness:
  "bins golden_model = 256 \<and> length (258 # replicate 255 (0::int)) = 256 \<and>
   sum_list (258 # replicate 255 (0::int)) < 2 ^ 31 \<and> (0::int) < 1 \<and>
   (\<exists>out. contrast_limit golden_model (258 # replicate 255 0) 1 = Inr out \<and>
      length out = 256 \<and> sum_list out = 258)"
  using contrast_limit_conservation [of golden_model "258 # replicate 255 0" 1]
  by (simp add: golden_model_def sum_list_replicate)

text \<open>
  C2. Claimed: for every histogram the accumulated excess is divided by 256 with
  truncating division. On the histogram above the code accumulates -1294967298, not the
  excess 2999999998 of the bins, and its floor division gives -5058467 where the
  truncating quotient is -5058466.
\<close>

theorem contrast_limit_redistribution_counterexample:
  "snd (clip_pass 256 1 (map wrap_int32 overflow_hist)) = - 1294967298 \<and>
   excess_total 1 overflow_hist = 2999999998 \<and>
   snd (clip_pass 256 1 (map wrap_int32 overflow_hist)) div 256 = - 5058467 \<and>
   - ((1294967298 :: int) div 256) = - 5058466"
  by (simp add: map_wrap_overflow_hist clip_pass_overflow_hist)
     (simp add: excess_total_def overflow_hist_def sum_list_replicate)

text \<open>
  C2, amended. For every 256-bin histogram of non-negative counts whose total is below
  \<open>2 ^ 31\<close> and every positive clip limit, the clipping loop leaves \<open>min (H[i], c)\<close> in
  bin \<open>i\<close> and accumulates the non-negative total excess; the result adds to every
  clipped bin the quotient of the total excess by 256, and one more to exactly the bins
  whose index is below the remainder.
\<close>

theorem contrast_limit_redistribution:
  assumes "bins self = 256" "length H = 256" "i < 256"
    and "\<forall>x\<in>set H. 0 \<le> x" "sum_list H < 2 ^ 31" "0 < c"
  shows "\<exists>out. contrast_limit self H c = Inr out \<and> length out = 256 \<and>
           0 \<le> snd (clip_pass 256 c H) \<and>
           snd (clip_pass 256 c H) = excess_total c H \<and>
           fst (clip_pass 256 c H) ! i = min (H ! i) c \<and>
           out ! i = fst (clip_pass 256 c H) ! i + snd (clip_pass 256 c H) div 256
                     + (if int i < snd (clip_pass 256 c H) mod 256 then 1 else 0)"
proof -
  have c: "0 \<le> c" using assms(6) by simp
  have te: "snd (clip_pass 256 c H) = excess_total c H"
    using clip_pass_snd [OF assms(4) c assms(5), of 256] assms(2)
    by (simp add: excess_total_nth)
  have g: "fst (clip_pass 256 c H) ! i = min (H ! i) c"
    using clip_pass_fst [of 256 H c] assms(2,3) by simp
  have eq: "contrast_limit self H c = Inr (spec_redistribute c H)"
    using assms c by (intro contrast_limit_eq) simp_all
  show ?thesis
    using assms(2,3) excess_total_nonneg [of c H]
    by (simp add: eq te g spec_redistribute_nth)
qed

theorem contrast_limit_redistribution_witness:
  "bins golden_model = 256 \<and> length (258 # replicate 255 (0::int)) = 256 \<and> (0::nat) < 256 \<and>
   sum_list (258 # replicate 255 (0::int)) < 2 ^ 31 \<and> (0::int) < 1 \<and>
   (\<exists>out. contrast_limit golden_model (258 # replicate 255 0) 1 = Inr out \<and>
      snd (clip_pass 256 1 (258 # replicate 255 0)) = 257 \<and> out ! 0 = 3)"
  using contrast_limit_redistribution [of golden_model "258 # replicate 255 0" 0 1]
  by (auto simp: golden_model_def excess_total_def sum_list_replicate)

text \<open>
  C6. Claimed: no bin of the result exceeds the clip limit. With 2 pixels in bin 0 and
  clip limit 1, the excess of 1 goes back to bin 0, which ends at 2.
\<close>

theorem contrast_limit_exceeds_counterexample:
  "\<not> (case contrast_limit golden_model (2 # replicate 255 0) 1 of
        Inr out \<Rightarrow> out ! 0 \<le> 1
      | Inl e \<Rightarrow> True)"
proof -
  have "contrast_limit golden_model (2 # replicate 255 0) 1 =
      Inr (spec_redistribute 1 (2 # replicate 255 0))"
    by (rule contrast_limit_eq) (simp_all add: golden_model_def sum_list_replicate)
  then show ?thesis
    by (simp add: spec_redistribute_nth excess_total_def sum_list_replicate)
qed

text \<open>
  C6, amended. For every 256-bin histogram of non-negative int32 counts and every
  positive clip limit: after the clipping loop, before redistribution, no bin exceeds
  the clip limit; after redistribution every bin is at most the clip limit plus the
  average increment plus one.
\<close>

theorem contrast_limit_bound:
  assumes "bins self = 256" "length H = 256" "i < 256"
    and "\<forall>x\<in>set H. 0 \<le> x \<and> x < 2 ^ 31" "0 < c"
  shows "fst (clip_pass 256 c H) ! i \<le> c \<and>
         (\<exists>out. contrast_limit self H c = Inr out \<and>
            out ! i \<le> c + snd (clip_pass 256 c H) div 256 + 1)"
proof -
  let ?te = "snd (clip_pass 256 c H)"
  let ?g = "min (H ! i) c"
  have h32: "map wrap_int32 H = H"
    using assms(4) by (intro map_wrap_int32_id) auto
  have Hi: "0 \<le> H ! i" "H ! i < 2 ^ 31" using assms(2,3,4) by simp_all
  then have wi: "wrap_int32 (H ! i) = H ! i" by (intro wrap_int32_id) simp_all
  have fst: "fst (clip_pass 256 c H) ! i = ?g"
    using clip_pass_fst [of 256 H c] assms(2,3) by simp
  have "- (2 ^ 31) \<le> ?te" using clip_pass_snd_range [of 256 c H] by simp
  then have "(- (2 ^ 31)) div 256 \<le> ?te div 256" by (rule zdiv_mono1) simp
  then have a: "- 8388608 \<le> ?te div 256" by simp
  have g: "0 \<le> ?g" "?g \<le> c" using Hi(1) assms(5) by simp_all
  have "- (2 ^ 31) \<le> (0::int) + (- 8388608)" by simp
  also have "\<dots> \<le> ?g + ?te div 256" using g(1) a by (rule add_mono)
  finally have v: "wrap_int32 (?g + ?te div 256) \<le> ?g + ?te div 256"
    by (rule wrap_int32_le)
  have "- (2 ^ 31) \<le> wrap_int32 (?g + ?te div 256) + 1"
    using wrap_int32_range [of "?g + ?te div 256"] by simp
  then have v1: "wrap_int32 (wrap_int32 (?g + ?te div 256) + 1)
      \<le> wrap_int32 (?g + ?te div 256) + 1"
    by (rule wrap_int32_le)
  have c: "- (2 ^ 31) \<le> c" using assms(5) by simp
  define out where "out = map (\<lambda>i. if int i < ?te mod 256
                    then wrap_int32 (wrap_int32 (min (wrap_int32 (H ! i)) c + ?te div 256) + 1)
                    else wrap_int32 (min (wrap_int32 (H ! i)) c + ?te div 256))
              [0..<256]"
  have eq: "contrast_limit self H c = Inr out"
    unfolding out_def
    using contrast_limit_code [of self H c] assms(1,2) c by (simp add: h32)
  have outi: "out ! i = (if int i < ?te mod 256
                    then wrap_int32 (wrap_int32 (?g + ?te div 256) + 1)
                    else wrap_int32 (?g + ?te div 256))"
    using assms(3) by (simp add: out_def wi)
  have "out ! i \<le> c + ?te div 256 + 1"
  proof (cases "int i < ?te mod 256")
    case True
    have "wrap_int32 (wrap_int32 (?g + ?te div 256) + 1) \<le> c + ?te div 256 + 1"
      using v v1 g(2) by linarith
    then show ?thesis using True by (simp only: outi if_True)
  next
    case False
    have "wrap_int32 (?g + ?te div 256) \<le> c + ?te div 256 + 1"
      using v g(2) by linarith
    then show ?thesis using False by (simp only: outi if_False)
  qed
  with eq have "\<exists>out. contrast_limit self H c = Inr out \<and>
      out ! i \<le> c + ?te div 256 + 1" by blast
  moreover have "fst (clip_pass 256 c H) ! i \<le> c" using g(2) by (simp only: fst)
  ultimately show ?thesis by blast
qed

theorem contrast_limit_bound_witness:
  "bins golden_model = 256 \<and> length (258 # replicate 255 (0::int)) = 256 \<and> (0::nat) < 256 \<and>
   (0::int) < 1 \<and>
   fst (clip_pass 256 1 (258 # replicate 255 0)) ! 0 \<le> 1 \<and>
   (\<exists>out. contrast_limit golden_model (258 # replicate 255 0) 1 = Inr out \<and>
      out ! 0 \<le> 1 + snd (clip_pass 256 1 (258 # replicate 255 0)) div 256 + 1)"
  using contrast_limit_bound [of golden_model "258 # replicate 255 0" 0 1]
  by (simp add: golden_model_def)

section \<open>The cumulative sum\<close>

lemma cumsum_from_length [simp]: "length (cumsum_from a xs) = length xs"
  by (induction xs arbitrary: a) simp_all

lemma cumsum_from_append:
  "cumsum_from a (xs @ ys) = cumsum_from a xs @ cumsum_from (a + sum_list xs) ys"
  by (induction xs arbitrary: a) (simp_all add: add.assoc)

lemma cumsum_from_replicate_zero: "cumsum_from a (replicate n 0) = replicate n a"
  by (induction n) simp_all

lemma cumsum_from_nth:
  "i < length xs \<Longrightarrow> cumsum_from a xs ! i = a + sum_list (take (Suc i) xs)"
proof (induction xs arbitrary: a i)
  case Nil
  then show ?case by simp
next
  case (Cons x xs)
  then show ?case by (cases i) (simp_all add: add.assoc)
qed

lemma cumsum_from_Nil_iff [simp]: "cumsum_from a xs = [] \<longleftrightarrow> xs = []"
  by (cases xs) simp_all

lemma last_cumsum_from: "xs \<noteq> [] \<Longrightarrow> last (cumsum_from a xs) = a + sum_list xs"
  using cumsum_from_nth [of "length xs - 1" xs a] by (simp add: last_conv_nth)

lemma cumsum_length [simp]: "length (cumsum xs) = length xs"
  by (simp add: cumsum_def)

lemma cumsum_nth: "i < length xs \<Longrightarrow> cumsum xs ! i = sum_list (take (Suc i) xs)"
  by (simp add: cumsum_def cumsum_from_nth)

lemma last_cumsum: "xs \<noteq> [] \<Longrightarrow> last (cumsum xs) = sum_list xs"
  by (simp add: cumsum_def last_cumsum_from)

lemma cumsum_from_mono:
  "\<forall>x\<in>set xs. 0 \<le> x \<Longrightarrow> i \<le> j \<Longrightarrow> j < length xs \<Longrightarrow>
   cumsum_from a xs ! i \<le> cumsum_from a xs ! j"
proof (induction xs arbitrary: a i j)
  case Nil
  then show ?case by simp
next
  case (Cons x xs)
  show ?case
  proof (cases i)
    case 0
    show ?thesis
    proof (cases j)
      case 0
      with \<open>i = 0\<close> show ?thesis by simp
    next
      case (Suc j')
      with Cons.prems have "j' < length xs" by simp
      then have "cumsum_from (a + x) xs ! j' = a + x + sum_list (take (Suc j') xs)"
        by (rule cumsum_from_nth)
      moreover have "0 \<le> sum_list (take (Suc j') xs)"
        using Cons.prems(1) by (intro sum_list_nonneg) (auto dest: in_set_takeD)
      ultimately show ?thesis using \<open>i = 0\<close> Suc by simp
    qed
  next
    case (Suc i')
    with Cons.prems obtain j' where j: "j = Suc j'" by (cases j) simp_all
    with Suc Cons.prems have "cumsum_from (a + x) xs ! i' \<le> cumsum_from (a + x) xs ! j'"
      by (intro Cons.IH) simp_all
    then show ?thesis using Suc j by simp
  qed
qed

lemma cumsum_mono:
  "\<forall>x\<in>set xs. 0 \<le> x \<Longrightarrow> i \<le> j \<Longrightarrow> j < length xs \<Longrightarrow> cumsum xs ! i \<le> cumsum xs ! j"
  by (simp add: cumsum_def cumsum_from_mono)

lemma cumsum_le_last:
  assumes "\<forall>x\<in>set xs. 0 \<le> x" "i < length xs"
  shows "cumsum xs ! i \<le> last (cumsum xs)"
proof -
  have ne: "xs \<noteq> []" using assms(2) by auto
  then have "last (cumsum xs) = cumsum xs ! (length xs - 1)"
    by (simp add: last_conv_nth cumsum_def)
  moreover have "cumsum xs ! i \<le> cumsum xs ! (length xs - 1)"
    using assms by (intro cumsum_mono) simp_all
  ultimately show ?thesis by simp
qed

section \<open>The first strictly positive value\<close>

lemma first_nonzero_cdf_hd:
  "0 < n \<Longrightarrow> cdf \<noteq> [] \<Longrightarrow> 0 < cdf ! 0 \<Longrightarrow> first_nonzero_cdf n cdf = cdf ! 0"
  by (cases cdf; cases n) (simp_all add: first_nonzero_cdf_def)

lemma first_nonzero_cdf_first:
  assumes "i < n" "i < length cdf" "0 < cdf ! i"
  shows "\<exists>k\<le>i. first_nonzero_cdf n cdf = cdf ! k \<and> 0 < cdf ! k \<and> (\<forall>j<k. \<not> 0 < cdf ! j)"
proof -
  have "i < length (take n cdf)" "take n cdf ! i = cdf ! i" using assms by simp_all
  then have "\<exists>x\<in>set (take n cdf). 0 < x"
    using assms(3) by (metis nth_mem)
  then obtain v where v: "find (\<lambda>v. v > 0) (take n cdf) = Some v"
    by (cases "find (\<lambda>v. v > 0) (take n cdf)") (auto simp: find_None_iff)
  then obtain k where k: "k < length (take n cdf)" "0 < take n cdf ! k" "v = take n cdf ! k"
      "\<forall>j<k. \<not> 0 < take n cdf ! j"
    unfolding find_Some_iff by blast
  have ki: "k \<le> i"
  proof (rule ccontr)
    assume "\<not> k \<le> i"
    then have "i < k" by simp
    with k(4) have "\<not> 0 < take n cdf ! i" by blast
    with assms show False by simp
  qed
  have tk: "take n cdf ! j = cdf ! j" if "j \<le> k" for j
    using that k(1) by simp
  have 1: "first_nonzero_cdf n cdf = cdf ! k"
    using v k(3) tk [of k] by (simp add: first_nonzero_cdf_def)
  have 2: "0 < cdf ! k" using k(2) tk [of k] by simp
  have 3: "\<forall>j<k. \<not> 0 < cdf ! j"
  proof (intro allI impI)
    fix j assume "j < k"
    then have "\<not> 0 < take n cdf ! j" using k(4) by blast
    then show "\<not> 0 < cdf ! j" using tk [of j] \<open>j < k\<close> by simp
  qed
  show ?thesis using ki 1 2 3 by blast
qed


section \<open>The conversion to uint8\<close>

text \<open>
  Why the exact quotient stands for the float64 one. A float64 division is correctly
  rounded: its relative error is at most \<open>2 ^ -53\<close>, and it is exact when the quotient
  is an integer below \<open>2 ^ 53\<close>. Any result \<open>r\<close> with these two properties truncates to
  the same integer as the exact quotient, for the quotients of the normalisation from
  the first populated bin on: numerator between 0 and 255 times the denominator,
  denominator below \<open>2 ^ 40\<close>.
\<close>

lemma rounded_quotient_trunc:
  fixes r :: real
  assumes n: "0 \<le> n" "n \<le> 255 * b" and b: "0 < b" "b < 2 ^ 40"
    and err: "\<bar>r - real_of_int n / real_of_int b\<bar> \<le> (real_of_int n / real_of_int b) / 2 ^ 53"
    and exact: "b dvd n \<Longrightarrow> r = real_of_int n / real_of_int b"
  shows "trunc_toward_zero r = n div b"
proof (cases "b dvd n")
  case True
  then have "real_of_int n / real_of_int b = real_of_int (n div b)"
    using b(1) by (simp add: real_of_int_div)
  then have "r = real_of_int (n div b)" using exact [OF True] by simp
  moreover have "0 \<le> n div b" using n(1) b(1) by (simp add: pos_imp_zdiv_nonneg_iff)
  ultimately show ?thesis by (simp add: trunc_toward_zero_def)
next
  case False
  define k where "k = n div b"
  define m where "m = n mod b"
  define q where "q = real_of_int n / real_of_int b"
  have rb: "0 < real_of_int b" using b(1) by simp
  have "0 \<le> n mod b" "n mod b < b" using b(1) by simp_all
  moreover have "n mod b \<noteq> 0" using False by (simp add: dvd_eq_mod_eq_0)
  ultimately have m: "1 \<le> m" "m \<le> b - 1" unfolding m_def by linarith+
  have k: "0 \<le> k" using n(1) b(1) by (simp add: k_def pos_imp_zdiv_nonneg_iff)
  have "n = k * b + m" by (simp add: k_def m_def)
  then have "real_of_int n = real_of_int k * real_of_int b + real_of_int m"
    by (metis of_int_add of_int_mult)
  then have q: "q = real_of_int k + real_of_int m / real_of_int b"
    using rb by (simp add: q_def field_simps)
  have lo: "real_of_int k + 1 / real_of_int b \<le> q"
    unfolding q using m(1) rb by (simp add: divide_right_mono)
  have "real_of_int m / real_of_int b \<le> (real_of_int b - 1) / real_of_int b"
    using m(2) rb by (intro divide_right_mono) simp_all
  also have "\<dots> = 1 - 1 / real_of_int b" using rb by (simp add: field_simps)
  finally have hi: "q \<le> real_of_int k + 1 - 1 / real_of_int b" unfolding q by simp
  have "real_of_int n \<le> 255 * real_of_int b"
    using n(2) by (metis of_int_le_iff of_int_mult of_int_numeral)
  then have q255: "q \<le> 255" using rb by (simp add: q_def field_simps)
  have q0: "0 \<le> q" using n(1) rb by (simp add: q_def)
  have "q / 2 ^ 53 \<le> 255 / 2 ^ 53" using q255 by (simp add: divide_right_mono)
  also have "\<dots> < 1 / (2 ^ 40 :: real)" by simp
  also have "\<dots> < 1 / real_of_int b"
  proof -
    have "real_of_int b < 2 ^ 40" using b(2) by (metis of_int_less_iff of_int_numeral of_int_power)
    then show ?thesis using rb by (simp add: field_simps)
  qed
  finally have e: "q / 2 ^ 53 < 1 / real_of_int b" .
  have "\<bar>r - q\<bar> < 1 / real_of_int b" using err e by (simp add: q_def)
  then have "real_of_int k < r" "r < real_of_int k + 1" using lo hi by linarith+
  then have "\<lfloor>r\<rfloor> = k" "0 \<le> r" using k by (simp_all add: floor_unique)
  then show ?thesis by (simp add: trunc_toward_zero_def k_def)
qed

lemma astype_uint8_quotient:
  assumes "0 \<le> a" "a \<le> b" "0 < b"
  shows "astype_uint8 out_of_range (real_of_int a * 255 / real_of_int b) = (a * 255) div b"
    and "0 \<le> (a * 255) div b" and "(a * 255) div b \<le> 255"
proof -
  have "real_of_int a * 255 / real_of_int b = real_of_int (a * 255) / real_of_int b"
    by simp
  then have q: "\<lfloor>real_of_int a * 255 / real_of_int b\<rfloor> = (a * 255) div b"
    by (simp only: floor_divide_of_int_eq)
  have nonneg: "0 \<le> real_of_int a * 255 / real_of_int b" using assms by simp
  show lo: "0 \<le> (a * 255) div b"
    using assms by (simp add: pos_imp_zdiv_nonneg_iff)
  have "a * 255 \<le> b * 255" using assms by simp
  then have "(a * 255) div b \<le> (b * 255) div b" by (rule zdiv_mono1) (rule assms)
  then show hi: "(a * 255) div b \<le> 255" using assms by simp
  show "astype_uint8 out_of_range (real_of_int a * 255 / real_of_int b) = (a * 255) div b"
    unfolding astype_uint8_def trunc_toward_zero_def Let_def q
    using lo hi nonneg by (simp only: if_True simp_thms)
qed

lemma astype_uint8_negative:
  assumes "a < 0" "0 < b"
  shows "astype_uint8 out_of_range (real_of_int a * 255 / real_of_int b) =
     (if - b < a * 255 then 0 else out_of_range (- ((- a * 255) div b)))"
proof -
  have "real_of_int a * 255 / real_of_int b = real_of_int (a * 255) / real_of_int b"
    by simp
  then have q: "\<lceil>real_of_int a * 255 / real_of_int b\<rceil> = - ((- (a * 255)) div b)"
    by (simp only: ceiling_divide_eq_div)
  have neg: "\<not> 0 \<le> real_of_int a * 255 / real_of_int b"
    using assms by (simp add: divide_less_0_iff not_le)
  have pos: "0 \<le> (- (a * 255)) div b"
    using assms by (simp add: pos_imp_zdiv_nonneg_iff)
  have zero: "(- (a * 255)) div b = 0 \<longleftrightarrow> - b < a * 255"
    using assms by (auto simp: div_pos_pos_trivial zdiv_eq_0_iff)
  show ?thesis
    unfolding astype_uint8_def trunc_toward_zero_def Let_def q
    using neg pos zero by auto
qed


section \<open>Normalisation\<close>

lemma cumsum_hd: "xs \<noteq> [] \<Longrightarrow> cumsum xs ! 0 = xs ! 0"
  by (cases xs) (simp_all add: cumsum_def)

lemma normalize_cdf_degenerate:
  "last (cumsum cl) = first_nonzero_cdf n (cumsum cl) \<or> last (cumsum cl) = 0 \<Longrightarrow>
   normalize_cdf out_of_range n cl = replicate n 0"
  by (simp add: normalize_cdf_def Let_def)

lemma normalize_cdf_map:
  assumes "last (cumsum cl) \<noteq> first_nonzero_cdf n (cumsum cl)" "last (cumsum cl) \<noteq> 0"
  shows "normalize_cdf out_of_range n cl =
     map (\<lambda>v. astype_uint8 out_of_range
                 (real_of_int (v - first_nonzero_cdf n (cumsum cl)) * 255
                    / real_of_int (last (cumsum cl) - first_nonzero_cdf n (cumsum cl))))
         (cumsum cl)"
  using assms by (simp add: normalize_cdf_def Let_def)

lemma astype_uint8_255: "astype_uint8 out_of_range 255 = 255"
  by (simp add: astype_uint8_def trunc_toward_zero_def)

lemma normalize_cdf_last:
  assumes "last (cumsum cl) \<noteq> first_nonzero_cdf n (cumsum cl)" "last (cumsum cl) \<noteq> 0"
    and "cl \<noteq> []"
  shows "last (normalize_cdf out_of_range n cl) = 255"
proof -
  have ne: "cumsum cl \<noteq> []" using assms(3) by (simp add: cumsum_def)
  have "real_of_int (last (cumsum cl) - first_nonzero_cdf n (cumsum cl)) \<noteq> 0"
    using assms(1) by simp
  then show ?thesis
    by (simp add: normalize_cdf_map [OF assms(1,2)] last_map [OF ne] astype_uint8_255
        del: of_int_diff)
qed

section \<open>A histogram with one populated bin\<close>

lemma single_bin_append:
  "k < n \<Longrightarrow> single_bin n k count = replicate k 0 @ count # replicate (n - Suc k) 0"
  unfolding single_bin_def
  by (rule nth_equalityI) (auto simp: nth_list_update nth_append nth_Cons')

lemma cumsum_single_bin:
  "k < n \<Longrightarrow> cumsum (single_bin n k count) = replicate k 0 @ replicate (n - k) count"
proof -
  assume k: "k < n"
  have "cumsum_from 0 (count # replicate (n - Suc k) 0) = replicate (Suc (n - Suc k)) count"
    by (simp add: cumsum_from_replicate_zero)
  moreover have "Suc (n - Suc k) = n - k" using k by simp
  ultimately show ?thesis
    using k by (simp add: single_bin_append cumsum_def cumsum_from_append
        cumsum_from_replicate_zero sum_list_replicate del: replicate_Suc cumsum_from.simps)
qed

lemma find_replicate_skip:
  "\<not> P x \<Longrightarrow> find P (replicate k x @ ys) = find P ys"
  by (induction k) simp_all

lemma find_replicate_hit:
  "P x \<Longrightarrow> 0 < k \<Longrightarrow> find P (replicate k x @ ys) = Some x"
  by (cases k) simp_all

lemma normalize_cdf_single_bin:
  assumes "k < n" "0 \<le> count"
  shows "normalize_cdf out_of_range n (single_bin n k count) = replicate n 0"
proof (cases "count = 0")
  case True
  have "last (replicate k 0 @ replicate (n - k) (0::int)) = 0"
    using assms(1) by simp
  then show ?thesis
    using True assms(1) by (intro normalize_cdf_degenerate) (simp add: cumsum_single_bin)
next
  case False
  then have pos: "0 < count" using assms(2) by simp
  let ?cdf = "replicate k 0 @ replicate (n - k) count"
  have "length ?cdf = n" using assms(1) by simp
  then have "take n ?cdf = ?cdf" by simp
  moreover have "find (\<lambda>v. v > 0) ?cdf = Some count"
    using pos assms(1) find_replicate_hit [of "\<lambda>v. v > 0" count "n - k" "[]"]
    by (simp add: find_replicate_skip)
  ultimately have "first_nonzero_cdf n ?cdf = count"
    by (simp add: first_nonzero_cdf_def)
  moreover have "last ?cdf = count" using assms(1) by simp
  ultimately show ?thesis
    using assms(1) by (intro normalize_cdf_degenerate) (simp add: cumsum_single_bin)
qed

lemma single_bin_le:
  "0 \<le> count \<Longrightarrow> count < 2 ^ 31 \<Longrightarrow> count \<le> c \<Longrightarrow>
   \<forall>x\<in>set (single_bin n k count). - (2 ^ 31) \<le> x \<and> x < 2 ^ 31 \<and> x \<le> c"
  unfolding single_bin_def by (auto dest!: set_update_subset_insert [THEN subsetD])

lemma calculate_cdf_single_bin:
  assumes "bins self = n" "k < n" "0 \<le> count" "count < 2 ^ 31" "count \<le> c"
  shows "calculate_cdf out_of_range self (single_bin n k count) c = Inr (replicate n 0)"
proof -
  have len: "length (single_bin n k count) = n" by (simp add: single_bin_def)
  have "contrast_limit self (single_bin n k count) c = Inr (single_bin n k count)"
    using assms len by (intro contrast_limit_identity single_bin_le) simp_all
  then show ?thesis
    using assms by (simp add: calculate_cdf_def normalize_cdf_single_bin)
qed

section \<open>Normalisation: the entries from the first populated bin on\<close>

lemma normalize_cdf_entry:
  assumes nonneg: "\<forall>x\<in>set cl. 0 \<le> x" and len: "length cl = n"
    and nd: "last (cumsum cl) \<noteq> first_nonzero_cdf n (cumsum cl)" "last (cumsum cl) \<noteq> 0"
    and i: "i < n" and pos: "0 < cumsum cl ! i"
  shows "normalize_cdf out_of_range n cl ! i =
           ((cumsum cl ! i - first_nonzero_cdf n (cumsum cl)) * 255)
             div (last (cumsum cl) - first_nonzero_cdf n (cumsum cl))"
    and "normalize_cdf out_of_range n cl ! i =
           spec_cdf_entry (cumsum cl ! i) (first_nonzero_cdf n (cumsum cl)) (last (cumsum cl))"
    and "0 \<le> normalize_cdf out_of_range n cl ! i"
    and "normalize_cdf out_of_range n cl ! i \<le> 255"
proof -
  let ?cdf = "cumsum cl" and ?m = "first_nonzero_cdf n (cumsum cl)" and ?t = "last (cumsum cl)"
  have il: "i < length ?cdf" using i len by simp
  from first_nonzero_cdf_first [OF i il pos]
  obtain k where k: "k \<le> i" "?m = ?cdf ! k" by blast
  have m_le: "?m \<le> ?cdf ! i"
    using k i len nonneg by (simp add: cumsum_mono)
  have v_le: "?cdf ! i \<le> ?t"
    using nonneg i len by (intro cumsum_le_last) simp_all
  have b: "0 < ?t - ?m" using m_le v_le nd(1) by linarith
  have a: "0 \<le> ?cdf ! i - ?m" "?cdf ! i - ?m \<le> ?t - ?m" using m_le v_le by simp_all
  have entry: "normalize_cdf out_of_range n cl ! i =
      astype_uint8 out_of_range (real_of_int (?cdf ! i - ?m) * 255 / real_of_int (?t - ?m))"
    using il by (simp add: normalize_cdf_map [OF nd] del: of_int_diff)
  show eq: "normalize_cdf out_of_range n cl ! i = ((?cdf ! i - ?m) * 255) div (?t - ?m)"
    unfolding entry by (rule astype_uint8_quotient(1) [OF a b])
  show lo: "0 \<le> normalize_cdf out_of_range n cl ! i"
    unfolding eq by (rule astype_uint8_quotient(2) [OF a b])
  show hi: "normalize_cdf out_of_range n cl ! i \<le> 255"
    unfolding eq by (rule astype_uint8_quotient(3) [OF a b])
  show "normalize_cdf out_of_range n cl ! i = spec_cdf_entry (?cdf ! i) ?m ?t"
    using lo hi unfolding eq spec_cdf_entry_def by simp
qed

lemma normalize_cdf_mono_populated:
  assumes nonneg: "\<forall>x\<in>set cl. 0 \<le> x" and len: "length cl = n"
    and ij: "i \<le> j" "j < n" and pos: "0 < cumsum cl ! i"
  shows "normalize_cdf out_of_range n cl ! i \<le> normalize_cdf out_of_range n cl ! j"
proof (cases "last (cumsum cl) = first_nonzero_cdf n (cumsum cl) \<or> last (cumsum cl) = 0")
  case True
  then show ?thesis using ij by (simp add: normalize_cdf_degenerate)
next
  case False
  then have nd: "last (cumsum cl) \<noteq> first_nonzero_cdf n (cumsum cl)" "last (cumsum cl) \<noteq> 0"
    by simp_all
  let ?cdf = "cumsum cl" and ?m = "first_nonzero_cdf n (cumsum cl)" and ?t = "last (cumsum cl)"
  have i: "i < n" using ij by simp
  have le: "?cdf ! i \<le> ?cdf ! j" using nonneg ij len by (simp add: cumsum_mono)
  then have posj: "0 < ?cdf ! j" using pos by simp
  have il: "i < length ?cdf" using i len by simp
  from first_nonzero_cdf_first [OF i il pos]
  obtain k where k: "k \<le> i" "?m = ?cdf ! k" by blast
  have "?m \<le> ?cdf ! i" using k i len nonneg by (simp add: cumsum_mono)
  moreover have "?cdf ! j \<le> ?t" using nonneg ij len by (intro cumsum_le_last) simp_all
  ultimately have b: "0 < ?t - ?m" using le nd(1) by linarith
  have "(?cdf ! i - ?m) * 255 \<le> (?cdf ! j - ?m) * 255" using le by simp
  then have "((?cdf ! i - ?m) * 255) div (?t - ?m) \<le> ((?cdf ! j - ?m) * 255) div (?t - ?m)"
    by (rule zdiv_mono1) (rule b)
  then show ?thesis
    by (simp only: normalize_cdf_entry(1) [OF nonneg len nd i pos]
        normalize_cdf_entry(1) [OF nonneg len nd ij(2) posj])
qed

text \<open>
  The bins before the first populated one: their cumulative value is 0, below
  \<open>cdf_min\<close>, and the quotient is negative. Its conversion is 0 when the quotient is
  above \<open>-1\<close> and is out of range otherwise.
\<close>

lemma normalize_cdf_leading:
  assumes nd: "last (cumsum cl) \<noteq> first_nonzero_cdf n (cumsum cl)" "last (cumsum cl) \<noteq> 0"
    and i: "i < length cl" and zero: "cumsum cl ! i = 0"
    and m: "0 < first_nonzero_cdf n (cumsum cl)"
    and t: "first_nonzero_cdf n (cumsum cl) < last (cumsum cl)"
  shows "normalize_cdf out_of_range n cl ! i =
     (if first_nonzero_cdf n (cumsum cl) * 255
           < last (cumsum cl) - first_nonzero_cdf n (cumsum cl) then 0
      else out_of_range (- ((first_nonzero_cdf n (cumsum cl) * 255)
                              div (last (cumsum cl) - first_nonzero_cdf n (cumsum cl)))))"
proof -
  let ?m = "first_nonzero_cdf n (cumsum cl)" and ?t = "last (cumsum cl)"
  have "normalize_cdf out_of_range n cl ! i =
      astype_uint8 out_of_range (real_of_int (- ?m) * 255 / real_of_int (?t - ?m))"
    using i zero by (simp add: normalize_cdf_map [OF nd] del: of_int_diff)
  also have "\<dots> = (if - (?t - ?m) < (- ?m) * 255 then 0
       else out_of_range (- ((- (- ?m) * 255) div (?t - ?m))))"
    using m t by (intro astype_uint8_negative) simp_all
  finally show ?thesis by simp
qed


lemma normalize_cdf_length:
  "length cl = n \<Longrightarrow> length (normalize_cdf out_of_range n cl) = n"
  by (simp add: normalize_cdf_def Let_def)

lemma contrast_limit_populated:
  assumes b: "bins self = length h" "0 < length h"
    and nonneg: "\<forall>x\<in>set h. 0 \<le> x" and total: "sum_list h < 2 ^ 31" and c: "0 < c"
    and first: "0 < h ! 0 \<or> 0 < excess_total c h"
  shows "\<exists>out. contrast_limit self h c = Inr out \<and> length out = length h \<and>
           (\<forall>x\<in>set out. 0 \<le> x) \<and> 0 < out ! 0"
proof -
  let ?n = "length h" and ?te = "excess_total c h"
  let ?f = "\<lambda>i. min (h ! i) c + ?te div int ?n + (if int i < ?te mod int ?n then 1 else 0)"
  have c0: "0 \<le> c" using c by simp
  have q: "0 \<le> ?te div int ?n"
    using excess_total_nonneg [of c h] b(2) by (simp add: pos_imp_zdiv_nonneg_iff)
  have h0: "0 \<le> h ! 0" using nonneg b(2) by simp
  have 2: "0 < ?f 0"
  proof (cases "0 < h ! 0")
    case True
    then have "0 < min (h ! 0) c" using c by simp
    then show ?thesis using q by auto
  next
    case False
    then have te: "0 < ?te" using first by simp
    have decomp: "?te = int ?n * (?te div int ?n) + ?te mod int ?n" by simp
    have r: "0 \<le> ?te mod int ?n" using b(2) by simp
    have "?te div int ?n \<noteq> 0 \<or> ?te mod int ?n \<noteq> 0"
    proof (rule ccontr)
      assume "\<not> (?te div int ?n \<noteq> 0 \<or> ?te mod int ?n \<noteq> 0)"
      then have "?te div int ?n = 0" "?te mod int ?n = 0" by simp_all
      with decomp have "?te = 0" by simp
      with te show False by simp
    qed
    then have "0 < ?te div int ?n \<or> 0 < ?te mod int ?n" using q r by linarith
    moreover have "0 \<le> min (h ! 0) c" using c h0 by simp
    ultimately show ?thesis using q by auto
  qed
  define out where "out = spec_redistribute c h"
  have eq: "contrast_limit self h c = Inr out"
    unfolding out_def by (rule contrast_limit_eq [OF b(1,2) nonneg c0 total])
  have len: "length out = ?n" by (simp add: out_def)
  have all: "\<forall>x\<in>set out. 0 \<le> x"
    unfolding out_def by (rule spec_redistribute_set_nonneg [OF nonneg c0])
  have "out ! 0 = ?f 0" using b(2) by (simp add: out_def spec_redistribute_nth)
  with 2 have "0 < out ! 0" by (simp only:)
  with eq len all show ?thesis by blast
qed

lemma calculate_cdf_populated:
  assumes b: "bins self = length h" "0 < length h"
    and nonneg: "\<forall>x\<in>set h. 0 \<le> x" and total: "sum_list h < 2 ^ 31" and c: "0 < c"
    and first: "0 < h ! 0 \<or> 0 < excess_total c h"
  shows "\<exists>table. calculate_cdf out_of_range self h c = Inr table \<and>
           length table = length h \<and>
           (\<forall>i j. i \<le> j \<and> j < length h \<longrightarrow> table ! i \<le> table ! j) \<and>
           (\<forall>i<length h. 0 \<le> table ! i \<and> table ! i \<le> 255)"
proof -
  let ?n = "length h"
  from contrast_limit_populated [OF assms]
  obtain out where out: "contrast_limit self h c = Inr out" "length out = ?n"
      "\<forall>x\<in>set out. 0 \<le> x" "0 < out ! 0"
    by blast
  let ?table = "normalize_cdf out_of_range ?n out"
  have ne: "out \<noteq> []" using out(2) b(2) by auto
  have pos: "0 < cumsum out ! i" if "i < ?n" for i
  proof -
    have "cumsum out ! 0 \<le> cumsum out ! i"
      using out(2,3) that by (intro cumsum_mono) simp_all
    then show ?thesis using cumsum_hd [OF ne] out(4) by simp
  qed
  have mono: "?table ! i \<le> ?table ! j" if "i \<le> j" "j < ?n" for i j
    using that out(2,3) pos [of i]
    by (intro normalize_cdf_mono_populated) simp_all
  have range: "0 \<le> ?table ! i \<and> ?table ! i \<le> 255" if "i < ?n" for i
  proof (cases "last (cumsum out) = first_nonzero_cdf ?n (cumsum out) \<or> last (cumsum out) = 0")
    case True
    then show ?thesis using that by (simp add: normalize_cdf_degenerate)
  next
    case False
    then show ?thesis
      using normalize_cdf_entry(3,4) [OF out(3,2) _ _ that pos [OF that], of out_of_range]
      by simp
  qed
  show ?thesis
    using mono range out(2)
    by (simp add: calculate_cdf_def out(1) b(1) normalize_cdf_length)
qed

section \<open>Normalisation: empty bins before the first populated one\<close>

lemma low_byte_eq_mod:
  "- (2 ^ 31) \<le> t \<Longrightarrow> t < 2 ^ 31 \<Longrightarrow> low_byte t = t mod 256"
proof -
  assume "- (2 ^ 31) \<le> t" "t < 2 ^ 31"
  moreover have "t AND mask 8 = take_bit 8 t" by (simp add: take_bit_eq_mask)
  ultimately show ?thesis
    by (simp add: low_byte_def take_bit_eq_mod mask_eq_exp_minus_1)
qed

lemma cumsum_leading_empty_hist:
  "cumsum leading_empty_hist = replicate 10 0 @ replicate 10 5 @ replicate 236 10"
proof -
  have "replicate 10 (5::int) = 5 # replicate 9 5" "replicate 236 (10::int) = 10 # replicate 235 10"
    by (simp_all add: numeral_eq_Suc)
  then show ?thesis
    by (simp add: leading_empty_hist_def cumsum_def cumsum_from_append
        cumsum_from_replicate_zero sum_list_replicate del: replicate_Suc)
qed

lemma leading_empty_hist_parameters:
  "cumsum leading_empty_hist ! 0 = 0 \<and>
   first_nonzero_cdf 256 (cumsum leading_empty_hist) = 5 \<and>
   last (cumsum leading_empty_hist) = 10"
proof -
  have "find (\<lambda>v. v > 0) (replicate 10 0 @ replicate 10 (5::int) @ replicate 236 10) = Some 5"
    using find_replicate_hit [of "\<lambda>v. v > 0" "5::int" 10 "replicate 236 10"]
    by (simp add: find_replicate_skip)
  then show ?thesis
    by (simp add: cumsum_leading_empty_hist first_nonzero_cdf_def nth_append)
qed

lemma normalize_cdf_leading_empty_hist:
  "normalize_cdf out_of_range 256 leading_empty_hist =
     replicate 10 (out_of_range (- 255)) @ replicate 10 0 @ replicate 236 255"
proof -
  have 1: "astype_uint8 out_of_range (- 255) = out_of_range (- 255)"
    by (simp add: astype_uint8_def trunc_toward_zero_def)
  have 2: "astype_uint8 out_of_range 0 = 0"
    by (simp add: astype_uint8_def trunc_toward_zero_def)
  show ?thesis
    using leading_empty_hist_parameters
    by (simp add: normalize_cdf_def Let_def) (simp add: cumsum_leading_empty_hist 1 2 astype_uint8_255)
qed

lemma calculate_cdf_leading_empty_hist:
  "calculate_cdf out_of_range golden_model leading_empty_hist 100 =
     Inr (replicate 10 (out_of_range (- 255)) @ replicate 10 0 @ replicate 236 255)"
proof -
  have b: "bins golden_model = 256" by (simp add: golden_model_def)
  have "contrast_limit golden_model leading_empty_hist 100 = Inr leading_empty_hist"
    by (rule contrast_limit_identity) (auto simp: b leading_empty_hist_def)
  then show ?thesis
    by (simp add: calculate_cdf_def b normalize_cdf_leading_empty_hist)
qed

lemma calculate_cdf_zero_branch:
  assumes "contrast_limit self H c = Inr clipped"
    and "last (cumsum clipped) = first_nonzero_cdf (bins self) (cumsum clipped)
         \<or> last (cumsum clipped) = 0"
  shows "calculate_cdf out_of_range self H c = Inr (replicate (bins self) 0)"
  using assms by (simp add: calculate_cdf_def normalize_cdf_degenerate)

section \<open>Normalisation: the claims\<close>

text \<open>
  C9, amended. When the clipped histogram's cumulative total equals \<open>cdf_min\<close> or is 0,
  \<open>calculate_cdf\<close> returns the all-zero 256-entry table. A clipped histogram that is
  empty except for one bin is such a histogram, and a histogram with one populated bin
  reaches the normalisation unchanged, and gives the all-zero table, when its count is
  an int32 that does not exceed the clip limit.
\<close>

theorem calculate_cdf_degenerate:
  assumes "bins self = 256"
  shows "(contrast_limit self H c = Inr clipped \<and>
            (last (cumsum clipped) = first_nonzero_cdf 256 (cumsum clipped)
             \<or> last (cumsum clipped) = 0)
          \<longrightarrow> calculate_cdf out_of_range self H c = Inr (replicate 256 0))
       \<and> (k < 256 \<and> 0 \<le> count
          \<longrightarrow> normalize_cdf out_of_range 256 (single_bin 256 k count) = replicate 256 0)
       \<and> (k < 256 \<and> 0 \<le> count \<and> count < 2 ^ 31 \<and> count \<le> c
          \<longrightarrow> calculate_cdf out_of_range self (single_bin 256 k count) c
               = Inr (replicate 256 0))"
  using assms calculate_cdf_zero_branch [of self H c clipped out_of_range]
    normalize_cdf_single_bin [of k 256 count out_of_range]
    calculate_cdf_single_bin [of self 256 k count c out_of_range]
  by simp

lemma contrast_limit_single_bin_small:
  "contrast_limit golden_model (single_bin 256 50 16) 100 = Inr (single_bin 256 50 16)"
  by (intro contrast_limit_identity single_bin_le) (simp_all add: golden_model_def single_bin_def)

theorem calculate_cdf_degenerate_witness:
  "bins golden_model = 256 \<and>
   contrast_limit golden_model (single_bin 256 50 16) 100 = Inr (single_bin 256 50 16) \<and>
   last (cumsum (single_bin 256 50 16)) = first_nonzero_cdf 256 (cumsum (single_bin 256 50 16)) \<and>
   (50::nat) < 256 \<and> (0::int) \<le> 16 \<and> (16::int) < 2 ^ 31 \<and> (16::int) \<le> 100 \<and>
   normalize_cdf low_byte 256 (single_bin 256 50 16) = replicate 256 0 \<and>
   calculate_cdf low_byte golden_model (single_bin 256 50 16) 100 = Inr (replicate 256 0)"
proof -
  have b: "bins golden_model = 256" by (simp add: golden_model_def)
  have cdf: "cumsum (single_bin 256 50 16) = replicate 50 0 @ replicate 206 16"
    using cumsum_single_bin [of 50 256 16] by simp
  have "find (\<lambda>v. v > 0) (replicate 50 0 @ replicate 206 (16::int)) = Some 16"
    using find_replicate_hit [of "\<lambda>v. v > 0" "16::int" 206 "[]"]
    by (simp add: find_replicate_skip)
  then have deg: "last (cumsum (single_bin 256 50 16))
      = first_nonzero_cdf 256 (cumsum (single_bin 256 50 16))"
    by (simp add: cdf first_nonzero_cdf_def)
  show ?thesis
    using calculate_cdf_degenerate [OF b, of "single_bin 256 50 16" 100 "single_bin 256 50 16"
        low_byte 50 16]
      contrast_limit_single_bin_small deg b
    by simp
qed

text \<open>
  C9. Claimed: a histogram that is empty except for one bin holding the full tile pixel
  count yields the all-zero table. With the 14400 pixels of a tile in bin 0 and the
  clip limit 500 of the test bench, the excess of 13900 is spread over all 256 bins, the
  clipped histogram has no empty bin, and the table ends at 255.
\<close>

theorem calculate_cdf_full_tile_counterexample:
  "calculate_cdf low_byte golden_model (single_bin 256 0 14400) 500 \<noteq> Inr (replicate 256 0)"
proof -
  let ?H = "single_bin 256 0 14400"
  have H: "?H = 14400 # replicate 255 0"
    using single_bin_append [of 0 256 14400] by simp
  have len: "length ?H = 256" by (simp add: single_bin_def)
  have b: "bins golden_model = length ?H" by (simp add: golden_model_def len)
  have te: "excess_total 500 ?H = 13900"
    by (simp add: H excess_total_def sum_list_replicate)
  define out where "out = spec_redistribute 500 ?H"
  have out: "contrast_limit golden_model ?H 500 = Inr out" "length out = 256"
      "sum_list out = 14400"
  proof -
    show "contrast_limit golden_model ?H 500 = Inr out"
      unfolding out_def
      by (rule contrast_limit_eq [OF b]) (simp_all add: H sum_list_replicate)
    show "length out = 256" by (simp add: out_def len)
    show "sum_list out = 14400"
      by (simp add: out_def spec_redistribute_sum len) (simp add: H sum_list_replicate)
  qed
  have "out ! 0 = min (?H ! 0) 500 + excess_total 500 ?H div int (length ?H)
                   + (if int 0 < excess_total 500 ?H mod int (length ?H) then 1 else 0)"
    unfolding out_def by (rule spec_redistribute_nth) (simp add: len)
  then have out0: "out ! 0 = 555"
    by (simp add: te len) (simp add: H)
  have ne: "out \<noteq> []" using out(2) by auto
  have cdf0: "cumsum out ! 0 = 555" using cumsum_hd [OF ne] out0 by simp
  have "cumsum out \<noteq> []" using ne by (simp add: cumsum_def)
  then have cmin: "first_nonzero_cdf 256 (cumsum out) = 555"
    using first_nonzero_cdf_hd [of 256 "cumsum out"] cdf0 by simp
  have total: "last (cumsum out) = 14400" using last_cumsum [OF ne] out(3) by simp
  have "last (normalize_cdf low_byte 256 out) = 255"
    using ne by (intro normalize_cdf_last) (simp_all add: cmin total)
  then have "normalize_cdf low_byte 256 out \<noteq> replicate 256 0"
    by auto
  moreover have "bins golden_model = 256" by (simp add: golden_model_def)
  ultimately show ?thesis
    by (simp add: calculate_cdf_def out(1))
qed

text \<open>
  C4. Claimed: the table is non-decreasing for every histogram. On the histogram with
  five pixels in bin 10 and five in bin 20 and clip limit 100, nothing is clipped, the
  cumulative value of bins 0 to 9 is 0 and \<open>cdf_min\<close> is 5, so line 75 converts
  \<open>-255.0\<close> to uint8 in these bins: the table holds there whatever the platform returns
  for this out-of-range conversion, and 0 in bins 10 to 19. With the conversion of an
  x86-64 build the table is 1 in bins 0 to 9 and decreases from bin 9 to bin 10.
\<close>

theorem calculate_cdf_not_monotonic:
  "calculate_cdf out_of_range golden_model leading_empty_hist 100 =
     Inr (replicate 10 (out_of_range (- 255)) @ replicate 10 0 @ replicate 236 255) \<and>
   calculate_cdf low_byte golden_model leading_empty_hist 100 =
     Inr (replicate 10 1 @ replicate 10 0 @ replicate 236 255) \<and>
   (replicate 10 1 @ replicate 10 0 @ replicate 236 (255::int)) ! 9
     > (replicate 10 1 @ replicate 10 0 @ replicate 236 (255::int)) ! 10"
  by (simp add: calculate_cdf_leading_empty_hist low_byte_eq_mod nth_append)

text \<open>
  C3. Claimed: in the non-degenerate case every entry is the floor of the scaled
  difference clamped into 0..255. On the same histogram the tile is not degenerate
  (cumulative total 10, \<open>cdf_min\<close> 5); in bin 0 the clamped floor is 0, and the code,
  which does not clamp, returns what the platform gives for the conversion of
  \<open>-255.0\<close>: its low byte, 1, on an x86-64 build.
\<close>

theorem calculate_cdf_entry_not_clamped:
  "(case calculate_cdf out_of_range golden_model leading_empty_hist 100 of
      Inr table \<Rightarrow> table ! 0 | Inl e \<Rightarrow> 0) = out_of_range (- 255) \<and>
   low_byte (- 255) = 1 \<and>
   cumsum leading_empty_hist ! 0 = 0 \<and>
   first_nonzero_cdf 256 (cumsum leading_empty_hist) = 5 \<and>
   last (cumsum leading_empty_hist) = 10 \<and>
   spec_cdf_entry 0 5 10 = 0"
  using leading_empty_hist_parameters
  by (simp add: calculate_cdf_leading_empty_hist low_byte_eq_mod nth_append spec_cdf_entry_def)

end
